theory Spec2Isabelle
  imports Main "HOL-Library.AList"
begin

section \<open>The frontend server of the movie analyzer (src/frontend/server.js)\<close>

text \<open>
  The source is a Node/Express program. Everything it does after start-up happens in
  callbacks: the route handlers of \<^verbatim>\<open>/health\<close> and \<^verbatim>\<open>/admin/*\<close>, the timer callbacks they
  register, the three hooks handed to the proxy middleware and the two signal handlers.
  The model is a reactive system: one event per callback, a step function that runs the
  callback on the state of the process, and the module-level variables
  \<^verbatim>\<open>serverHealthy\<close>, \<^verbatim>\<open>serverOverloaded\<close>, \<^verbatim>\<open>overloadInterval\<close> as fields of that state.

  What the runtime contributes is written out: the timer table behind
  \<^verbatim>\<open>setInterval\<close>/\<^verbatim>\<open>setTimeout\<close>/\<^verbatim>\<open>clearInterval\<close>, the console, the exit status of the
  process, and the rule that \<^verbatim>\<open>res.json\<close> throws once the headers of a response are sent.
  Values read from the environment (the clock, uptime, memory and CPU figures, the
  variables of \<^verbatim>\<open>process.env\<close>) are parameters. The order in which due timers fire is left
  open: any registered timer may fire next, so what is proved for every event sequence
  holds for the schedules of the real event loop. CPU time and memory consumption of the
  stress callback are not modelled.

  The proxy middleware is a library. Its part is written out as far as the options of
  lines 198-205 and the three hooks decide it: which hook a forwarded request enters,
  with which response object, and what the two timeouts do to a backend that is late.
\<close>

subsection \<open>JSON values, errors, responses\<close>

datatype json =
    JString string
  | JBool bool
  | JNumber int
  | JObject "(string \<times> json) list"

text \<open>A JavaScript error object with its \<^verbatim>\<open>message\<close> and optional \<^verbatim>\<open>code\<close>.\<close>

record js_error =
  err_message :: string
  err_code :: "string option"

definition ERR_HTTP_HEADERS_SENT :: js_error where
  "ERR_HTTP_HEADERS_SENT =
     \<lparr>err_message = ''Cannot set headers after they are sent to the client'',
      err_code = Some ''ERR_HTTP_HEADERS_SENT''\<rparr>"

text \<open>
  The response object \<^verbatim>\<open>res\<close>. A handler receives it fresh: status 200, nothing sent.
  \<^verbatim>\<open>res.status(c)\<close> sets the status code; \<^verbatim>\<open>res.json(v)\<close> sends \<^verbatim>\<open>v\<close> as the body and throws
  when the headers have been sent already.
\<close>

record response =
  statusCode :: nat
  headersSent :: bool
  body :: "json option"

definition fresh_res :: response where
  "fresh_res = \<lparr>statusCode = 200, headersSent = False, body = None\<rparr>"

definition res_status :: "nat \<Rightarrow> response \<Rightarrow> response" where
  "res_status c res = res\<lparr>statusCode := c\<rparr>"

definition res_json :: "json \<Rightarrow> response \<Rightarrow> js_error + response" where
  "res_json v res =
     (if headersSent res then Inl ERR_HTTP_HEADERS_SENT
      else Inr (res\<lparr>headersSent := True, body := Some v\<rparr>))"

text \<open>Reading a field of the JSON object a response carries.\<close>

definition field :: "string \<Rightarrow> response \<Rightarrow> json option" where
  "field k res = (case body res of Some (JObject fs) \<Rightarrow> map_of fs k | _ \<Rightarrow> None)"

subsection \<open>The process: module variables, timers, console, exit status\<close>

text \<open>
  The callbacks the source hands to \<^verbatim>\<open>setInterval\<close> and \<^verbatim>\<open>setTimeout\<close>:
  \<^item> \<open>OverloadTick\<close>: the stress cycle of \<^verbatim>\<open>/admin/start-overload\<close> (every 100 ms);
  \<^item> \<open>ReleaseWaste\<close>: \<^verbatim>\<open>() => wasteMemory.length = 0\<close>, 200 ms after a stress cycle;
  \<^item> \<open>CrashTick c\<close>: the countdown of \<^verbatim>\<open>/admin/crash\<close> (every 1000 ms), \<open>c\<close> being the
    current value of the variable \<^verbatim>\<open>countdown\<close> of its closure;
  \<^item> \<open>ForceExit\<close>, \<open>ForceThrow\<close>, \<open>ForceKill\<close>: \<^verbatim>\<open>process.exit(1)\<close>, the thrown
    \<^verbatim>\<open>Error('Forced container crash')\<close> and \<^verbatim>\<open>process.kill(process.pid, 'SIGKILL')\<close>.
\<close>

datatype callback =
    OverloadTick
  | ReleaseWaste
  | CrashTick int
  | ForceExit
  | ForceThrow
  | ForceKill

record timer =
  tid :: nat
  delay :: nat
  repeats :: bool
  callback :: callback

text \<open>The lines written by \<^verbatim>\<open>console.log\<close>/\<^verbatim>\<open>console.error\<close>, with the values they interpolate.\<close>

datatype log_entry =
    LogCrashCalled
  | LogCrashCountdown int
  | LogForcingExit
  | LogHealthToggled bool
  | LogOverloadStarting
  | LogOverloadCycle
  | LogOverloadStopped
  | LogProxyError string
  | LogProxyErrorDetails "string option" string string
  | LogProxying string string string
  | LogProxyResponse nat string string
  | LogSignal string

datatype exit_status =
    Exited int
  | Uncaught js_error
  | Killed string

record proc =
  serverHealthy :: bool
  serverOverloaded :: bool
  overloadInterval :: "nat option"
  timers :: "timer list"
  nextId :: nat
  console :: "log_entry list"
  exited :: "exit_status option"

text \<open>
  Lines 71-73 of the source: \<^verbatim>\<open>serverHealthy = true\<close>, \<^verbatim>\<open>serverOverloaded = false\<close>,
  \<^verbatim>\<open>overloadInterval = null\<close>. A timer handle of Node is an object and therefore truthy;
  \<^verbatim>\<open>null\<close> is \<open>None\<close>.
\<close>

definition init :: proc where
  "init = \<lparr>serverHealthy = True, serverOverloaded = False, overloadInterval = None,
           timers = [], nextId = 0, console = [], exited = None\<rparr>"

definition console_log :: "log_entry \<Rightarrow> proc \<Rightarrow> proc" where
  "console_log e s = s\<lparr>console := console s @ [e]\<rparr>"

definition setInterval :: "callback \<Rightarrow> nat \<Rightarrow> proc \<Rightarrow> nat \<times> proc" where
  "setInterval cb ms s =
     (nextId s,
      s\<lparr>timers := timers s @ [\<lparr>tid = nextId s, delay = ms, repeats = True, callback = cb\<rparr>],
        nextId := Suc (nextId s)\<rparr>)"

definition setTimeout :: "callback \<Rightarrow> nat \<Rightarrow> proc \<Rightarrow> nat \<times> proc" where
  "setTimeout cb ms s =
     (nextId s,
      s\<lparr>timers := timers s @ [\<lparr>tid = nextId s, delay = ms, repeats = False, callback = cb\<rparr>],
        nextId := Suc (nextId s)\<rparr>)"

definition clearInterval :: "nat \<Rightarrow> proc \<Rightarrow> proc" where
  "clearInterval i s = s\<lparr>timers := filter (\<lambda>t. tid t \<noteq> i) (timers s)\<rparr>"

subsection \<open>Route handlers\<close>

text \<open>
  Each handler takes the time stamp that \<^verbatim>\<open>new Date().toISOString()\<close> yields, the response
  object and the process, and returns what it sent (or the error it threw) with the
  process it leaves behind.
\<close>

type_synonym reply = "js_error + response"

text \<open>\<^verbatim>\<open>app.get('/health')\<close>, lines 76-92.\<close>

definition get_health :: "string \<Rightarrow> response \<Rightarrow> proc \<Rightarrow> reply \<times> proc" where
  "get_health ts res s =
     (if \<not> serverHealthy s then
        (res_json (JObject [(''status'', JString ''unhealthy''),
                            (''timestamp'', JString ts),
                            (''service'', JString ''frontend'')])
           (res_status 503 res), s)
      else
        (res_json (JObject [(''status'', JString (if serverOverloaded s then ''degraded''
                                                  else ''healthy'')),
                            (''timestamp'', JString ts),
                            (''service'', JString ''frontend''),
                            (''overloaded'', JBool (serverOverloaded s))])
           (res_status 200 res), s))"

text \<open>
  \<^verbatim>\<open>app.post('/admin/crash')\<close>, lines 95-118: log, acknowledge, then start the countdown
  with \<^verbatim>\<open>countdown = 3\<close>. The handle \<^verbatim>\<open>crashInterval\<close> is local to the call.
\<close>

definition post_admin_crash :: "string \<Rightarrow> response \<Rightarrow> proc \<Rightarrow> reply \<times> proc" where
  "post_admin_crash ts res s =
     (let s1 = console_log LogCrashCalled s in
      case res_json (JObject [(''message'', JString ''Frontend container crash initiated''),
                              (''countdown'', JNumber 3),
                              (''timestamp'', JString ts)]) res of
        Inl e \<Rightarrow> (Inl e, s1)
      | Inr r \<Rightarrow> (Inr r, snd (setInterval (CrashTick 3) 1000 s1)))"

text \<open>\<^verbatim>\<open>app.post('/admin/toggle-health')\<close>, lines 120-128.\<close>

definition post_admin_toggle_health :: "string \<Rightarrow> response \<Rightarrow> proc \<Rightarrow> reply \<times> proc" where
  "post_admin_toggle_health ts res s =
     (let s1 = s\<lparr>serverHealthy := \<not> serverHealthy s\<rparr>;
          s2 = console_log (LogHealthToggled (serverHealthy s1)) s1
      in (res_json (JObject [(''message'', JString (''Frontend health '' @
                                 (if serverHealthy s2 then ''enabled'' else ''disabled''))),
                             (''healthy'', JBool (serverHealthy s2)),
                             (''timestamp'', JString ts)]) res, s2))"

text \<open>\<^verbatim>\<open>app.post('/admin/start-overload')\<close>, lines 130-166.\<close>

definition post_admin_start_overload :: "string \<Rightarrow> response \<Rightarrow> proc \<Rightarrow> reply \<times> proc" where
  "post_admin_start_overload ts res s =
     (if overloadInterval s \<noteq> None then
        (res_json (JObject [(''message'', JString ''Overload already running''),
                            (''overloaded'', JBool True)]) res, s)
      else
        let s1 = s\<lparr>serverOverloaded := True\<rparr>;
            s2 = console_log LogOverloadStarting s1;
            (i, s3) = setInterval OverloadTick 100 s2;
            s4 = s3\<lparr>overloadInterval := Some i\<rparr>
        in (res_json (JObject [(''message'', JString
                                  ''Frontend server overload started - High CPU/Memory usage''),
                               (''overloaded'', JBool True),
                               (''timestamp'', JString ts)]) res, s4))"

text \<open>\<^verbatim>\<open>app.post('/admin/stop-overload')\<close>, lines 168-183.\<close>

definition post_admin_stop_overload :: "string \<Rightarrow> response \<Rightarrow> proc \<Rightarrow> reply \<times> proc" where
  "post_admin_stop_overload ts res s =
     (case overloadInterval s of
        Some i \<Rightarrow>
          let s1 = clearInterval i s;
              s2 = s1\<lparr>overloadInterval := None\<rparr>;
              s3 = s2\<lparr>serverOverloaded := False\<rparr>;
              s4 = console_log LogOverloadStopped s3
          in (res_json (JObject [(''message'', JString ''Frontend server overload stopped''),
                                 (''overloaded'', JBool False),
                                 (''timestamp'', JString ts)]) res, s4)
      | None \<Rightarrow>
          (res_json (JObject [(''message'', JString ''No overload running''),
                              (''overloaded'', JBool False)]) res, s))"

text \<open>
  \<^verbatim>\<open>app.get('/admin/status')\<close>, lines 186-195. \<open>up\<close>, \<open>mem\<close> and \<open>cpu\<close> are what
  \<^verbatim>\<open>process.uptime()\<close>, \<^verbatim>\<open>process.memoryUsage()\<close> and \<^verbatim>\<open>process.cpuUsage()\<close> return.
\<close>

definition get_admin_status ::
  "string \<Rightarrow> json \<Rightarrow> json \<Rightarrow> json \<Rightarrow> response \<Rightarrow> proc \<Rightarrow> reply \<times> proc" where
  "get_admin_status ts up mem cpu res s =
     (res_json (JObject [(''healthy'', JBool (serverHealthy s)),
                         (''overloaded'', JBool (serverOverloaded s)),
                         (''timestamp'', JString ts),
                         (''uptime'', up),
                         (''memory'', mem),
                         (''cpu'', cpu)]) res, s)"

subsection \<open>Timer callbacks\<close>

text \<open>
  The countdown callback of \<^verbatim>\<open>/admin/crash\<close>, lines 104-117, running as timer \<open>i\<close> with
  \<^verbatim>\<open>countdown = c\<close>: decrement, log, and at zero clear the interval and schedule the three
  ways out, 100, 200 and 300 ms later.
\<close>

definition set_countdown :: "nat \<Rightarrow> int \<Rightarrow> proc \<Rightarrow> proc" where
  "set_countdown i c s =
     s\<lparr>timers := map (\<lambda>t. if tid t = i then t\<lparr>callback := CrashTick c\<rparr> else t) (timers s)\<rparr>"

definition crash_tick :: "nat \<Rightarrow> int \<Rightarrow> proc \<Rightarrow> proc" where
  "crash_tick i c s =
     (let c' = c - 1;
          s1 = set_countdown i c' s;
          s2 = console_log (LogCrashCountdown c') s1
      in if c' \<le> 0 then
           let s3 = clearInterval i s2;
               s4 = console_log LogForcingExit s3;
               s5 = snd (setTimeout ForceExit 100 s4);
               s6 = snd (setTimeout ForceThrow 200 s5)
           in snd (setTimeout ForceKill 300 s6)
         else s2)"

text \<open>
  The stress cycle, lines 140-159. The busy loop and the allocation change nothing the
  model holds; the callback schedules the release of its buffer and logs.
\<close>

definition overload_tick :: "proc \<Rightarrow> proc" where
  "overload_tick s = console_log LogOverloadCycle (snd (setTimeout ReleaseWaste 200 s))"

text \<open>
  Running a callback. \<^verbatim>\<open>process.exit(1)\<close> ends the process with code 1; the error thrown
  from a timer is uncaught (the source registers no handler for it) and ends the process;
  \<^verbatim>\<open>SIGKILL\<close> kills it.
\<close>

definition run_callback :: "nat \<Rightarrow> callback \<Rightarrow> proc \<Rightarrow> proc" where
  "run_callback i cb s =
     (case cb of
        OverloadTick \<Rightarrow> overload_tick s
      | ReleaseWaste \<Rightarrow> s
      | CrashTick c \<Rightarrow> crash_tick i c s
      | ForceExit \<Rightarrow> s\<lparr>exited := Some (Exited 1)\<rparr>
      | ForceThrow \<Rightarrow>
          s\<lparr>exited := Some (Uncaught \<lparr>err_message = ''Forced container crash'',
                                      err_code = None\<rparr>)\<rparr>
      | ForceKill \<Rightarrow> s\<lparr>exited := Some (Killed ''SIGKILL'')\<rparr>)"

text \<open>
  Timer \<open>i\<close> fires: a timeout leaves the table before its callback runs, an interval
  stays. Firing a handle that is not registered does nothing.
\<close>

definition fire :: "nat \<Rightarrow> proc \<Rightarrow> proc" where
  "fire i s =
     (case find (\<lambda>t. tid t = i) (timers s) of
        None \<Rightarrow> s
      | Some t \<Rightarrow>
          run_callback i (callback t) (if repeats t then s else clearInterval i s))"

subsection \<open>The proxy hooks\<close>

text \<open>
  Line 13: \<^verbatim>\<open>process.env.BACKEND_API_URL || 'http://localhost:8080'\<close>. An unset variable
  and the empty string are both falsy.
\<close>

definition BACKEND_URL :: "(string \<rightharpoonup> string) \<Rightarrow> string" where
  "BACKEND_URL env =
     (case env ''BACKEND_API_URL'' of
        None \<Rightarrow> ''http://localhost:8080''
      | Some v \<Rightarrow> if v = [] then ''http://localhost:8080'' else v)"

text \<open>
  What the hooks read of the incoming request \<^verbatim>\<open>req\<close>, and the two objects of the proxy
  library they write to: the outbound request \<^verbatim>\<open>proxyReq\<close> and the backend's response
  \<^verbatim>\<open>proxyRes\<close>.

  \<^verbatim>\<open>proxyRes.headers\<close> is a plain object: a property is found by its exact name, an
  assignment replaces the value of a present property and appends an absent one.

  The headers of \<^verbatim>\<open>proxyReq\<close> are kept by Node under the lower-cased name, each entry
  holding the name as it was written and the value: \<^verbatim>\<open>setHeader(name, value)\<close> stores
  \<^verbatim>\<open>[name, value]\<close> under \<^verbatim>\<open>name.toLowerCase()\<close>, so it replaces a header of the same name
  in any spelling, and \<^verbatim>\<open>getHeader(name)\<close> reads the value under \<^verbatim>\<open>name.toLowerCase()\<close>.
  Header names are ASCII, so \<^verbatim>\<open>toLowerCase\<close> is the one of the letters A to Z.
\<close>

record request =
  req_method :: string
  req_path :: string
  req_ip :: string

record proxy_req =
  preq_headers :: "(string \<times> string \<times> string) list"

record proxy_res =
  pres_statusCode :: nat
  pres_headers :: "(string \<times> string) list"
  pres_body :: string

definition toLowerCase :: "string \<Rightarrow> string" where
  "toLowerCase =
     map (\<lambda>c. if (65::nat) \<le> of_char c \<and> of_char c \<le> (90::nat)
              then char_of (of_char c + (32::nat)) else c)"

definition setHeader :: "string \<Rightarrow> string \<Rightarrow> proxy_req \<Rightarrow> proxy_req" where
  "setHeader k v pr =
     pr\<lparr>preq_headers := AList.update (toLowerCase k) (k, v) (preq_headers pr)\<rparr>"


text \<open>\<^verbatim>\<open>onError\<close>, lines 206-221.\<close>

definition onError ::
  "(string \<rightharpoonup> string) \<Rightarrow> js_error \<Rightarrow> request \<Rightarrow> response \<Rightarrow> proc \<Rightarrow> reply \<times> proc" where
  "onError env err req res s =
     (let s1 = console_log (LogProxyError (err_message err)) s;
          s2 = console_log (LogProxyErrorDetails (err_code err) (BACKEND_URL env)
                              (req_path req)) s1
      in if \<not> headersSent res then
           (res_json (JObject [(''error'', JString ''Backend service unavailable''),
                               (''message'', JString ''Cannot connect to backend server''),
                               (''target'', JString (BACKEND_URL env)),
                               (''path'', JString (req_path req))])
              (res_status 500 res), s2)
         else (Inr res, s2))"

text \<open>\<^verbatim>\<open>onProxyReq\<close>, lines 222-227.\<close>

definition onProxyReq ::
  "(string \<rightharpoonup> string) \<Rightarrow> proxy_req \<Rightarrow> request \<Rightarrow> proc \<Rightarrow> proxy_req \<times> proc" where
  "onProxyReq env proxyReq req s =
     (let p1 = setHeader ''X-Forwarded-Proto'' ''http'' proxyReq;
          p2 = setHeader ''X-Real-IP'' (req_ip req) p1
      in (p2, console_log (LogProxying (req_method req) (req_path req) (BACKEND_URL env)) s))"

text \<open>\<^verbatim>\<open>onProxyRes\<close>, lines 228-234.\<close>

definition onProxyRes :: "proxy_res \<Rightarrow> request \<Rightarrow> proc \<Rightarrow> proxy_res \<times> proc" where
  "onProxyRes proxyRes req s =
     (let h1 = AList.update ''X-Content-Type-Options'' ''nosniff'' (pres_headers proxyRes);
          h2 = AList.update ''X-Frame-Options'' ''DENY'' h1;
          h3 = AList.update ''X-XSS-Protection'' ''1; mode=block'' h2
      in (proxyRes\<lparr>pres_headers := h3\<rparr>,
          console_log (LogProxyResponse (pres_statusCode proxyRes) (req_method req)
                         (req_path req)) s))"

subsection \<open>The forwarding path\<close>

text \<open>
  Lines 198-205: the options of \<^verbatim>\<open>createProxyMiddleware\<close>. \<^verbatim>\<open>timeout\<close> is the idle timeout
  the library sets on the socket of the incoming request, \<^verbatim>\<open>proxyTimeout\<close> the one it sets
  on the outgoing request; both are milliseconds, and 0 sets none.
\<close>

record proxy_options =
  target :: string
  changeOrigin :: bool
  timeout :: nat
  proxyTimeout :: nat
  secure :: bool
  ws :: bool
  buffer :: bool

definition api_proxy_options :: "(string \<rightharpoonup> string) \<Rightarrow> proxy_options" where
  "api_proxy_options env =
     \<lparr>target = BACKEND_URL env, changeOrigin = True, timeout = 30000, proxyTimeout = 30000,
      secure = False, ws = False, buffer = False\<rparr>"

text \<open>
  What the backend does with a forwarded request: the connection fails with an error
  before any response, or the response arrives after so many milliseconds, or the
  connection is accepted and no response ever comes.
\<close>

datatype backend =
    Refuses js_error
  | Answers nat proxy_res
  | NeverAnswers

text \<open>
  What the client gets: a response written by the gateway itself, the backend's response
  relayed, a connection destroyed with nothing written on it, or nothing yet.
\<close>

datatype delivery =
    Written reply
  | Relay proxy_res
  | Destroyed
  | Pending

text \<open>The error of an outgoing request that is aborted.\<close>

definition socket_hang_up :: js_error where
  "socket_hang_up = \<lparr>err_message = ''socket hang up'', err_code = Some ''ECONNRESET''\<rparr>"

text \<open>A response that arrives after \<open>d\<close> milliseconds is late for a timeout that is set.\<close>

definition late :: "proxy_options \<Rightarrow> nat \<Rightarrow> bool" where
  "late opts d =
     ((timeout opts \<noteq> 0 \<and> timeout opts \<le> d) \<or> (proxyTimeout opts \<noteq> 0 \<and> proxyTimeout opts \<le> d))"

text \<open>
  No response in time. The idle timer of the incoming socket runs from the moment the
  request has been read, the timer of the outgoing request from the moment its socket is
  connected, which is later: with \<^verbatim>\<open>timeout \<le> proxyTimeout\<close> the incoming socket times out
  first. Nothing in the source listens for that timeout, so Node destroys the socket;
  the library then aborts the outgoing request, and it hands the error of an aborted
  request to \<^verbatim>\<open>onError\<close> only while the incoming socket is not destroyed. With
  \<^verbatim>\<open>proxyTimeout < timeout\<close> the outgoing request is aborted while the incoming socket is
  open, and \<^verbatim>\<open>onError\<close> runs on the response object, on which nothing has been sent.
\<close>

definition timed_out ::
  "(string \<rightharpoonup> string) \<Rightarrow> proxy_options \<Rightarrow> request \<Rightarrow> proc \<Rightarrow> delivery \<times> proc" where
  "timed_out env opts req s =
     (if timeout opts \<noteq> 0 \<and> (proxyTimeout opts = 0 \<or> timeout opts \<le> proxyTimeout opts)
        then (Destroyed, s)
      else if proxyTimeout opts \<noteq> 0
        then map_prod Written id (onError env socket_hang_up req fresh_res s)
      else (Pending, s))"

text \<open>
  One forwarded request. \<^verbatim>\<open>onProxyReq\<close> runs when the outgoing request gets its socket,
  before the connection is made. A connection that fails enters \<^verbatim>\<open>onError\<close> with the
  response object of the request, on which nothing has been sent; a response in time
  enters \<^verbatim>\<open>onProxyRes\<close> and is relayed with the headers the hook leaves. The result is
  what the client gets, the request that went out to the backend, and the process.
\<close>

definition forward ::
  "(string \<rightharpoonup> string) \<Rightarrow> backend \<Rightarrow> proxy_req \<Rightarrow> request \<Rightarrow> proc \<Rightarrow>
     delivery \<times> proxy_req \<times> proc" where
  "forward env b proxyReq req s =
     (let opts = api_proxy_options env;
          (outbound, s1) = onProxyReq env proxyReq req s;
          (d, s2) =
            (case b of
               Refuses err \<Rightarrow> map_prod Written id (onError env err req fresh_res s1)
             | Answers ms proxyRes \<Rightarrow>
                 if late opts ms then timed_out env opts req s1
                 else map_prod Relay id (onProxyRes proxyRes req s1)
             | NeverAnswers \<Rightarrow> timed_out env opts req s1)
      in (d, outbound, s2))"

subsection \<open>Signals, events and the step function\<close>

datatype signal = SIGTERM | SIGINT

text \<open>Lines 252-260: both handlers log and call \<^verbatim>\<open>process.exit(0)\<close>.\<close>

definition on_signal :: "signal \<Rightarrow> proc \<Rightarrow> proc" where
  "on_signal sg s =
     (console_log (LogSignal (case sg of SIGTERM \<Rightarrow> ''SIGTERM'' | SIGINT \<Rightarrow> ''SIGINT'')) s)
       \<lparr>exited := Some (Exited 0)\<rparr>"

datatype event =
    GetHealth string
  | PostCrash string
  | PostToggleHealth string
  | PostStartOverload string
  | PostStopOverload string
  | GetStatus string json json json
  | Fire nat
  | ProxyError js_error request response
  | ProxyReq proxy_req request
  | ProxyRes proxy_res request
  | Signal signal

datatype outcome =
    Http reply
  | Outbound proxy_req
  | Relayed proxy_res
  | Silent

text \<open>
  One event on a process. A route handler gets a fresh response object. A process that
  has exited reacts to nothing.
\<close>

definition step :: "(string \<rightharpoonup> string) \<Rightarrow> event \<Rightarrow> proc \<Rightarrow> outcome \<times> proc" where
  "step env e s =
     (if exited s \<noteq> None then (Silent, s)
      else case e of
        GetHealth ts \<Rightarrow> map_prod Http id (get_health ts fresh_res s)
      | PostCrash ts \<Rightarrow> map_prod Http id (post_admin_crash ts fresh_res s)
      | PostToggleHealth ts \<Rightarrow> map_prod Http id (post_admin_toggle_health ts fresh_res s)
      | PostStartOverload ts \<Rightarrow> map_prod Http id (post_admin_start_overload ts fresh_res s)
      | PostStopOverload ts \<Rightarrow> map_prod Http id (post_admin_stop_overload ts fresh_res s)
      | GetStatus ts up mem cpu \<Rightarrow> map_prod Http id (get_admin_status ts up mem cpu fresh_res s)
      | Fire i \<Rightarrow> (Silent, fire i s)
      | ProxyError err req res \<Rightarrow> map_prod Http id (onError env err req res s)
      | ProxyReq proxyReq req \<Rightarrow> map_prod Outbound id (onProxyReq env proxyReq req s)
      | ProxyRes proxyRes req \<Rightarrow> map_prod Relayed id (onProxyRes proxyRes req s)
      | Signal sg \<Rightarrow> (Silent, on_signal sg s))"

fun run :: "(string \<rightharpoonup> string) \<Rightarrow> event list \<Rightarrow> proc \<Rightarrow> proc" where
  "run env [] s = s"
| "run env (e # es) s = run env es (snd (step env e s))"

section \<open>Properties\<close>

subsection \<open>Vocabulary\<close>

text \<open>
  The three module variables together, and the invariant the data model states for
  them: \<^verbatim>\<open>serverOverloaded\<close> is true exactly when \<^verbatim>\<open>overloadInterval\<close> holds a handle.
\<close>

definition lifecycle :: "proc \<Rightarrow> bool \<times> bool \<times> nat option" where
  "lifecycle s = (serverHealthy s, serverOverloaded s, overloadInterval s)"

definition lifecycle_inv :: "proc \<Rightarrow> bool" where
  "lifecycle_inv s = (serverOverloaded s = (overloadInterval s \<noteq> None))"

text \<open>The registered stress timers.\<close>

definition stress_timers :: "proc \<Rightarrow> timer list" where
  "stress_timers s = filter (\<lambda>t. callback t = OverloadTick) (timers s)"

text \<open>
  What every state the process can reach satisfies: timer handles are distinct and were
  handed out before \<open>nextId\<close>; a stress timer is an interval and its handle is the one
  stored in \<^verbatim>\<open>overloadInterval\<close>; a stored handle belongs to a registered stress timer.
\<close>

definition wf :: "proc \<Rightarrow> bool" where
  "wf s =
     (distinct (map tid (timers s)) \<and>
      (\<forall>t \<in> set (timers s). tid t < nextId s) \<and>
      (\<forall>t \<in> set (timers s). callback t = OverloadTick \<longrightarrow>
          repeats t \<and> overloadInterval s = Some (tid t)) \<and>
      (overloadInterval s = None \<or>
       (\<exists>t \<in> set (timers s). overloadInterval s = Some (tid t) \<and> callback t = OverloadTick)))"

text \<open>No stress timer carries the handle \<open>i\<close>.\<close>

definition other_handle :: "nat \<Rightarrow> proc \<Rightarrow> bool" where
  "other_handle i s = (\<forall>u \<in> set (timers s). callback u = OverloadTick \<longrightarrow> tid u \<noteq> i)"

text \<open>Counting the toggle-health calls of an event sequence.\<close>

fun is_toggle :: "event \<Rightarrow> bool" where
  "is_toggle (PostToggleHealth ts) = True"
| "is_toggle e = False"

definition toggles :: "event list \<Rightarrow> nat" where
  "toggles es = length (filter is_toggle es)"

text \<open>The events by which the proxy library enters the three hooks.\<close>

fun is_proxy :: "event \<Rightarrow> bool" where
  "is_proxy (ProxyError err req res) = True"
| "is_proxy (ProxyReq proxyReq req) = True"
| "is_proxy (ProxyRes proxyRes req) = True"
| "is_proxy e = False"

text \<open>The crash request and the firing of a timer.\<close>

fun crash_path :: "event \<Rightarrow> bool" where
  "crash_path (PostCrash ts) = True"
| "crash_path (Fire i) = True"
| "crash_path e = False"

subsection \<open>Auxiliary lemmas\<close>

lemmas prim_defs = console_log_def setInterval_def setTimeout_def clearInterval_def
  res_json_def res_status_def fresh_res_def

lemmas handler_defs = get_health_def post_admin_crash_def post_admin_toggle_health_def
  post_admin_start_overload_def post_admin_stop_overload_def get_admin_status_def
  onError_def onProxyReq_def onProxyRes_def on_signal_def

lemmas timer_defs = fire_def run_callback_def crash_tick_def overload_tick_def set_countdown_def

lemma find_tid: "find (\<lambda>t. tid t = i) ts = Some t \<Longrightarrow> t \<in> set ts \<and> tid t = i"
  by (induction ts) (auto split: if_splits)

lemma wfI:
  assumes "distinct (map tid (timers s))"
    and "\<And>t. t \<in> set (timers s) \<Longrightarrow> tid t < nextId s"
    and "\<And>t. t \<in> set (timers s) \<Longrightarrow> callback t = OverloadTick \<Longrightarrow>
           repeats t \<and> overloadInterval s = Some (tid t)"
    and "\<And>i. overloadInterval s = Some i \<Longrightarrow>
           \<exists>t \<in> set (timers s). tid t = i \<and> callback t = OverloadTick"
  shows "wf s"
proof -
  have "overloadInterval s = None \<or>
       (\<exists>t \<in> set (timers s). overloadInterval s = Some (tid t) \<and> callback t = OverloadTick)"
  proof (cases "overloadInterval s")
    case None
    then show ?thesis by simp
  next
    case (Some i)
    from assms(4) [OF Some] obtain t where "t \<in> set (timers s)" "tid t = i"
      "callback t = OverloadTick" by blast
    then show ?thesis using Some by blast
  qed
  then show ?thesis
    unfolding wf_def using assms(1,2,3) by blast
qed

lemma wf_distinct: "wf s \<Longrightarrow> distinct (map tid (timers s))"
  by (simp add: wf_def)

lemma wf_tid_less: "wf s \<Longrightarrow> t \<in> set (timers s) \<Longrightarrow> tid t < nextId s"
  by (simp add: wf_def)

lemma wf_stress:
  "wf s \<Longrightarrow> t \<in> set (timers s) \<Longrightarrow> callback t = OverloadTick \<Longrightarrow>
     repeats t \<and> overloadInterval s = Some (tid t)"
  by (simp add: wf_def)

lemma wf_handle:
  "wf s \<Longrightarrow> overloadInterval s = Some i \<Longrightarrow>
     \<exists>t \<in> set (timers s). tid t = i \<and> callback t = OverloadTick"
  unfolding wf_def by fastforce

lemma wf_init: "wf init"
  by (simp add: wf_def init_def)

lemma wf_console_log: "wf (console_log e s) = wf s"
  by (simp add: wf_def console_log_def)

lemma wf_add_timer:
  assumes "wf s" and "cb \<noteq> OverloadTick"
  shows "wf (s\<lparr>timers := timers s @ [\<lparr>tid = nextId s, delay = ms, repeats = r, callback = cb\<rparr>],
               nextId := Suc (nextId s)\<rparr>)" (is "wf ?s'")
proof (rule wfI)
  have fresh: "nextId s \<notin> tid ` set (timers s)"
    using wf_tid_less [OF assms(1)] by fastforce
  show "distinct (map tid (timers ?s'))"
    using wf_distinct [OF assms(1)] fresh by simp
next
  fix t assume "t \<in> set (timers ?s')"
  then have "t \<in> set (timers s) \<or> tid t = nextId s" by auto
  then show "tid t < nextId ?s'"
    using wf_tid_less [OF assms(1)] by fastforce
next
  fix t assume "t \<in> set (timers ?s')" and cb: "callback t = OverloadTick"
  then have "t \<in> set (timers s)" using assms(2) by auto
  then show "repeats t \<and> overloadInterval ?s' = Some (tid t)"
    using wf_stress [OF assms(1) _ cb] by simp
next
  fix i assume "overloadInterval ?s' = Some i"
  then have "overloadInterval s = Some i" by simp
  from wf_handle [OF assms(1) this]
  show "\<exists>t \<in> set (timers ?s'). tid t = i \<and> callback t = OverloadTick" by auto
qed

lemma wf_setTimeout: "wf s \<Longrightarrow> cb \<noteq> OverloadTick \<Longrightarrow> wf (snd (setTimeout cb ms s))"
  by (simp add: setTimeout_def wf_add_timer)

lemma wf_setInterval: "wf s \<Longrightarrow> cb \<noteq> OverloadTick \<Longrightarrow> wf (snd (setInterval cb ms s))"
  by (simp add: setInterval_def wf_add_timer)

lemma wf_frame:
  "timers s' = timers s \<Longrightarrow> nextId s' = nextId s \<Longrightarrow>
   overloadInterval s' = overloadInterval s \<Longrightarrow> wf s' = wf s"
  by (simp add: wf_def)

lemma stress_tid_neq:
  assumes "wf s" and "t \<in> set (timers s)" and "callback t \<noteq> OverloadTick"
    and "u \<in> set (timers s)" and "callback u = OverloadTick"
  shows "tid u \<noteq> tid t"
proof
  assume "tid u = tid t"
  moreover have "distinct (map tid (timers s))" using assms(1) by (rule wf_distinct)
  ultimately have "u = t" using assms(2,4) by (simp add: distinct_map inj_on_def)
  then show False using assms(3,5) by simp
qed

lemma other_handle_found:
  assumes "wf s" and "find (\<lambda>t. tid t = i) (timers s) = Some t"
    and "callback t \<noteq> OverloadTick"
  shows "other_handle i s"
  unfolding other_handle_def
proof (intro ballI impI)
  fix u assume u: "u \<in> set (timers s)" "callback u = OverloadTick"
  from find_tid [OF assms(2)] have t: "t \<in> set (timers s)" "tid t = i" by simp_all
  show "tid u \<noteq> i" using stress_tid_neq [OF assms(1) t(1) assms(3) u] t(2) by simp
qed

lemma timers_clearInterval: "timers (clearInterval i s) = filter (\<lambda>t. tid t \<noteq> i) (timers s)"
  by (simp add: clearInterval_def)

lemma frame_clearInterval:
  "nextId (clearInterval i s) = nextId s"
  "overloadInterval (clearInterval i s) = overloadInterval s"
  "serverHealthy (clearInterval i s) = serverHealthy s"
  "serverOverloaded (clearInterval i s) = serverOverloaded s"
  "console (clearInterval i s) = console s"
  "exited (clearInterval i s) = exited s"
  by (simp_all add: clearInterval_def)

lemma wf_clear_other:
  assumes "wf s" and "other_handle i s"
  shows "wf (clearInterval i s)"
proof (rule wfI)
  note ts = timers_clearInterval and others = frame_clearInterval(1,2)
  show "distinct (map tid (timers (clearInterval i s)))"
    unfolding ts using wf_distinct [OF assms(1)] by (simp add: distinct_map_filter)
  show "tid u < nextId (clearInterval i s)" if "u \<in> set (timers (clearInterval i s))" for u
    using that wf_tid_less [OF assms(1), of u] unfolding ts others by simp
  show "repeats u \<and> overloadInterval (clearInterval i s) = Some (tid u)"
    if "u \<in> set (timers (clearInterval i s))" "callback u = OverloadTick" for u
    using that wf_stress [OF assms(1), of u] unfolding ts others by simp
  show "\<exists>u \<in> set (timers (clearInterval i s)). tid u = j \<and> callback u = OverloadTick"
    if "overloadInterval (clearInterval i s) = Some j" for j
  proof -
    from that have "overloadInterval s = Some j" by (simp add: others)
    from wf_handle [OF assms(1) this] obtain u where
      u: "u \<in> set (timers s)" "tid u = j" "callback u = OverloadTick" by blast
    have "tid u \<noteq> i" using assms(2) u(1,3) by (simp add: other_handle_def)
    then have "u \<in> set (filter (\<lambda>t. tid t \<noteq> i) (timers s))" using u(1) by simp
    then show ?thesis unfolding ts using u(2,3) by blast
  qed
qed

lemma frame_set_countdown:
  "nextId (set_countdown i c s) = nextId s"
  "overloadInterval (set_countdown i c s) = overloadInterval s"
  "serverHealthy (set_countdown i c s) = serverHealthy s"
  "serverOverloaded (set_countdown i c s) = serverOverloaded s"
  "console (set_countdown i c s) = console s"
  "exited (set_countdown i c s) = exited s"
  by (simp_all add: set_countdown_def)

lemma wf_set_countdown:
  assumes "wf s" and "other_handle i s"
  shows "wf (set_countdown i c s)"
proof (rule wfI)
  define f :: "timer \<Rightarrow> timer"
    where "f = (\<lambda>t. if tid t = i then t\<lparr>callback := CrashTick c\<rparr> else t)"
  have ftid: "tid (f u) = tid u" for u by (simp add: f_def)
  have frep: "repeats (f u) = repeats u" for u by (simp add: f_def)
  have fcb: "callback (f u) = OverloadTick \<longleftrightarrow> callback u = OverloadTick \<and> tid u \<noteq> i" for u
    by (simp add: f_def)
  have m: "map tid (map f (timers s)) = map tid (timers s)"
    by (simp add: comp_def ftid)
  have ts: "timers (set_countdown i c s) = map f (timers s)"
    by (simp add: set_countdown_def f_def)
  note others = frame_set_countdown(1,2)
  show "distinct (map tid (timers (set_countdown i c s)))"
    unfolding ts m by (rule wf_distinct [OF assms(1)])
  show "tid u < nextId (set_countdown i c s)" if "u \<in> set (timers (set_countdown i c s))" for u
  proof -
    from that obtain v where v: "v \<in> set (timers s)" "u = f v" unfolding ts by auto
    then show ?thesis using wf_tid_less [OF assms(1), of v] by (simp add: others ftid)
  qed
  show "repeats u \<and> overloadInterval (set_countdown i c s) = Some (tid u)"
    if "u \<in> set (timers (set_countdown i c s))" "callback u = OverloadTick" for u
  proof -
    from that obtain v where v: "v \<in> set (timers s)" "u = f v" unfolding ts by auto
    then show ?thesis using that(2) wf_stress [OF assms(1), of v] by (simp add: others ftid frep fcb)
  qed
  show "\<exists>u \<in> set (timers (set_countdown i c s)). tid u = j \<and> callback u = OverloadTick"
    if "overloadInterval (set_countdown i c s) = Some j" for j
  proof -
    from that have "overloadInterval s = Some j" by (simp add: others)
    from wf_handle [OF assms(1) this] obtain u where
      u: "u \<in> set (timers s)" "tid u = j" "callback u = OverloadTick" by blast
    have "tid u \<noteq> i" using assms(2) u(1,3) by (simp add: other_handle_def)
    then have "f u \<in> set (map f (timers s)) \<and> tid (f u) = j \<and> callback (f u) = OverloadTick"
      using u by (simp add: ftid fcb)
    then show ?thesis unfolding ts by blast
  qed
qed

lemma other_handle_clearInterval: "other_handle i s \<Longrightarrow> other_handle i (clearInterval j s)"
  by (simp add: other_handle_def timers_clearInterval)

lemma other_handle_console_log: "other_handle i (console_log e s) = other_handle i s"
  by (simp add: other_handle_def console_log_def)

lemma other_handle_set_countdown: "other_handle i (set_countdown j c s)"
  if "other_handle i s"
  using that by (auto simp add: other_handle_def set_countdown_def)

lemma wf_crash_tick:
  assumes "wf s" and "other_handle i s"
  shows "wf (crash_tick i c s)"
proof -
  let ?s2 = "console_log (LogCrashCountdown (c - 1)) (set_countdown i (c - 1) s)"
  have w2: "wf ?s2"
    using assms by (simp add: wf_console_log wf_set_countdown)
  have o2: "other_handle i ?s2"
    using assms(2) by (simp add: other_handle_console_log other_handle_set_countdown)
  have "wf (console_log LogForcingExit (clearInterval i ?s2))"
    using w2 o2 by (simp add: wf_console_log wf_clear_other)
  then have "wf (snd (setTimeout ForceKill 300 (snd (setTimeout ForceThrow 200
               (snd (setTimeout ForceExit 100 (console_log LogForcingExit (clearInterval i ?s2))))))))"
    by (intro wf_setTimeout) simp_all
  then show ?thesis
    using w2 by (simp add: crash_tick_def Let_def)
qed

lemma wf_overload_tick: "wf s \<Longrightarrow> wf (overload_tick s)"
  by (simp add: overload_tick_def wf_console_log wf_setTimeout)

lemma wf_exited: "wf (s\<lparr>exited := x\<rparr>) = wf s"
  by (simp add: wf_def)

lemma wf_fire:
  assumes "wf s"
  shows "wf (fire i s)"
proof (cases "find (\<lambda>t. tid t = i) (timers s)")
  case None
  then show ?thesis using assms by (simp add: fire_def)
next
  case (Some t)
  show ?thesis
  proof (cases "callback t = OverloadTick")
    case True
    from find_tid [OF Some] have "t \<in> set (timers s)" by simp
    from wf_stress [OF assms this True] have "repeats t" by simp
    then show ?thesis
      using Some True assms by (simp add: fire_def run_callback_def wf_overload_tick)
  next
    case False
    have oh: "other_handle i s" by (rule other_handle_found [OF assms Some False])
    define s0 where "s0 = (if repeats t then s else clearInterval i s)"
    have w0: "wf s0" using assms oh by (simp add: s0_def wf_clear_other)
    have o0: "other_handle i s0" using oh by (simp add: s0_def other_handle_clearInterval)
    have "wf (run_callback i (callback t) s0)"
      using False w0 o0
      by (cases "callback t") (simp_all add: run_callback_def wf_crash_tick wf_exited)
    then show ?thesis using Some by (simp add: fire_def s0_def)
  qed
qed

lemma wf_start_overload:
  assumes "wf s"
  shows "wf (snd (post_admin_start_overload ts res s))"
proof (cases "overloadInterval s")
  case (Some i)
  then show ?thesis using assms by (simp add: post_admin_start_overload_def)
next
  case None
  define n where "n = nextId s"
  define s4 where "s4 = s\<lparr>serverOverloaded := True, console := console s @ [LogOverloadStarting],
      timers := timers s @ [\<lparr>tid = n, delay = 100, repeats = True, callback = OverloadTick\<rparr>],
      nextId := Suc n, overloadInterval := Some n\<rparr>"
  have eq: "snd (post_admin_start_overload ts res s) = s4"
    using None by (simp add: post_admin_start_overload_def setInterval_def console_log_def
        Let_def s4_def n_def)
  have quiet: "callback u \<noteq> OverloadTick" if "u \<in> set (timers s)" for u
    using wf_stress [OF assms that] None by auto
  have "wf s4"
  proof (rule wfI)
    have fresh: "n \<notin> tid ` set (timers s)"
      using wf_tid_less [OF assms] unfolding n_def by fastforce
    show "distinct (map tid (timers s4))"
      using wf_distinct [OF assms] fresh by (simp add: s4_def)
    show "tid u < nextId s4" if "u \<in> set (timers s4)" for u
    proof -
      from that have "u \<in> set (timers s) \<or> tid u = n" by (auto simp: s4_def)
      then show ?thesis using wf_tid_less [OF assms, of u] by (auto simp: s4_def n_def)
    qed
    show "repeats u \<and> overloadInterval s4 = Some (tid u)"
      if "u \<in> set (timers s4)" "callback u = OverloadTick" for u
    proof -
      from that(1) have "u \<in> set (timers s) \<or>
          u = \<lparr>tid = n, delay = 100, repeats = True, callback = OverloadTick\<rparr>"
        by (auto simp: s4_def)
      then show ?thesis using quiet [of u] that(2) by (auto simp: s4_def)
    qed
    show "\<exists>u \<in> set (timers s4). tid u = j \<and> callback u = OverloadTick"
      if "overloadInterval s4 = Some j" for j
      using that by (simp add: s4_def)
  qed
  then show ?thesis by (simp add: eq)
qed

lemma wf_stop_overload:
  assumes "wf s"
  shows "wf (snd (post_admin_stop_overload ts res s))"
proof (cases "overloadInterval s")
  case None
  then show ?thesis using assms by (simp add: post_admin_stop_overload_def)
next
  case (Some i)
  define s4 where "s4 = s\<lparr>timers := filter (\<lambda>t. tid t \<noteq> i) (timers s), overloadInterval := None,
      serverOverloaded := False, console := console s @ [LogOverloadStopped]\<rparr>"
  have eq: "snd (post_admin_stop_overload ts res s) = s4"
    using Some by (simp add: post_admin_stop_overload_def clearInterval_def console_log_def
        Let_def s4_def)
  have "wf s4"
  proof (rule wfI)
    show "distinct (map tid (timers s4))"
      using wf_distinct [OF assms] by (simp add: s4_def distinct_map_filter)
    show "tid u < nextId s4" if "u \<in> set (timers s4)" for u
      using that wf_tid_less [OF assms, of u] by (simp add: s4_def)
    show "repeats u \<and> overloadInterval s4 = Some (tid u)"
      if "u \<in> set (timers s4)" "callback u = OverloadTick" for u
      using that wf_stress [OF assms, of u] Some by (simp add: s4_def)
    show "\<exists>u \<in> set (timers s4). tid u = j \<and> callback u = OverloadTick"
      if "overloadInterval s4 = Some j" for j
      using that by (simp add: s4_def)
  qed
  then show ?thesis by (simp add: eq)
qed

lemma wf_crash: "wf s \<Longrightarrow> wf (snd (post_admin_crash ts res s))"
  by (simp add: post_admin_crash_def Let_def wf_console_log wf_setInterval split: sum.splits)

lemma wf_step:
  assumes "wf s"
  shows "wf (snd (step env e s))"
proof (cases "exited s = None")
  case False
  then show ?thesis using assms by (simp add: step_def)
next
  case True
  show ?thesis
  proof (cases e)
    case (PostCrash ts)
    then show ?thesis using True assms by (simp add: step_def wf_crash)
  next
    case (PostStartOverload ts)
    then show ?thesis using True assms by (simp add: step_def wf_start_overload)
  next
    case (PostStopOverload ts)
    then show ?thesis using True assms by (simp add: step_def wf_stop_overload)
  next
    case (Fire i)
    then show ?thesis using True assms by (simp add: step_def wf_fire)
  next
    case (GetHealth ts)
    then show ?thesis using True assms by (simp add: step_def get_health_def)
  next
    case (PostToggleHealth ts)
    then show ?thesis using True assms
      by (simp add: step_def post_admin_toggle_health_def Let_def wf_console_log
          wf_frame [of "s\<lparr>serverHealthy := \<not> serverHealthy s\<rparr>" s])
  next
    case (GetStatus ts up mem cpu)
    then show ?thesis using True assms by (simp add: step_def get_admin_status_def)
  next
    case (ProxyError err req res)
    then show ?thesis using True assms
      by (simp add: step_def onError_def Let_def wf_console_log)
  next
    case (ProxyReq proxyReq req)
    then show ?thesis using True assms
      by (simp add: step_def onProxyReq_def Let_def wf_console_log)
  next
    case (ProxyRes proxyRes req)
    then show ?thesis using True assms
      by (simp add: step_def onProxyRes_def Let_def wf_console_log)
  next
    case (Signal sg)
    then show ?thesis using True assms
      by (simp add: step_def on_signal_def wf_exited wf_console_log)
  qed
qed

lemma wf_run: "wf s \<Longrightarrow> wf (run env es s)"
  by (induction es arbitrary: s) (simp_all add: wf_step)

text \<open>Every state the process reaches from its initial state is well-formed.\<close>

lemma reachable_wf: "wf (run env es init)"
  by (rule wf_run [OF wf_init])

lemma lifecycle_fire: "lifecycle (fire i s) = lifecycle s"
  by (simp add: lifecycle_def timer_defs prim_defs Let_def split: option.splits callback.splits)

lemma lifecycle_step:
  "lifecycle (snd (step env e s)) =
     (if exited s \<noteq> None then lifecycle s
      else case e of
        PostToggleHealth ts \<Rightarrow> (\<not> serverHealthy s, serverOverloaded s, overloadInterval s)
      | PostStartOverload ts \<Rightarrow>
          (if overloadInterval s \<noteq> None then lifecycle s
           else (serverHealthy s, True, Some (nextId s)))
      | PostStopOverload ts \<Rightarrow>
          (if overloadInterval s = None then lifecycle s else (serverHealthy s, False, None))
      | _ \<Rightarrow> lifecycle s)"
proof (cases e)
  case (Fire i)
  then show ?thesis using lifecycle_fire [of i s] by (simp add: step_def)
qed (auto simp: step_def lifecycle_def handler_defs prim_defs Let_def
      split: option.splits sum.splits)

lemma step_lifecycle_inv: "lifecycle_inv s \<Longrightarrow> lifecycle_inv (snd (step env e s))"
  using lifecycle_step [of env e s]
  by (cases e) (auto simp: lifecycle_inv_def lifecycle_def split: if_splits)

lemma run_lifecycle_inv: "lifecycle_inv s \<Longrightarrow> lifecycle_inv (run env es s)"
  by (induction es arbitrary: s) (simp_all add: step_lifecycle_inv)

lemma run_exited: "exited s \<noteq> None \<Longrightarrow> run env es s = s"
  by (induction es) (simp_all add: step_def)

lemma run_alive: "exited (run env es s) = None \<Longrightarrow> exited s = None"
  using run_exited [of s env es] by (cases "exited s") auto

lemma step_healthy:
  "exited s = None \<Longrightarrow>
     serverHealthy (snd (step env e s)) = (if is_toggle e then \<not> serverHealthy s else serverHealthy s)"
  using lifecycle_step [of env e s]
  by (cases e) (auto simp: lifecycle_def split: if_splits)

lemma run_healthy:
  "exited (run env es s) = None \<Longrightarrow>
     serverHealthy (run env es s) = (serverHealthy s = even (toggles es))"
proof (induction es arbitrary: s)
  case Nil
  then show ?case by (simp add: toggles_def)
next
  case (Cons e es)
  let ?s' = "snd (step env e s)"
  from Cons.prems have fin: "exited (run env es ?s') = None" by simp
  then have "exited ?s' = None" by (rule run_alive)
  then have alive: "exited s = None" by (cases "exited s") (auto simp: step_def)
  have "serverHealthy (run env es ?s') = (serverHealthy ?s' = even (toggles es))"
    by (rule Cons.IH [OF fin])
  then show ?case
    using step_healthy [OF alive, of env e] by (auto simp: toggles_def)
qed

lemma stress_count:
  assumes "wf s"
  shows "length (stress_timers s) = (if overloadInterval s = None then 0 else 1)"
proof (cases "overloadInterval s")
  case None
  have "stress_timers s = []"
    unfolding stress_timers_def filter_empty_conv
    using wf_stress [OF assms] None by auto
  then show ?thesis using None by simp
next
  case (Some i)
  have d: "distinct (map tid (stress_timers s))"
    unfolding stress_timers_def using wf_distinct [OF assms] by (rule distinct_map_filter)
  have all: "\<forall>x \<in> set (map tid (stress_timers s)). x = i"
    using wf_stress [OF assms] Some by (auto simp: stress_timers_def)
  from wf_handle [OF assms Some] have ne: "map tid (stress_timers s) \<noteq> []"
    by (auto simp: stress_timers_def filter_empty_conv)
  have "length (map tid (stress_timers s)) = 1"
  proof (cases "map tid (stress_timers s)")
    case Nil
    then show ?thesis using ne by simp
  next
    case (Cons a as)
    have "as = []"
    proof (cases as)
      case Nil
      then show ?thesis .
    next
      case (Cons b bs)
      then show ?thesis using d all \<open>map tid (stress_timers s) = a # as\<close> by auto
    qed
    then show ?thesis using Cons by simp
  qed
  then show ?thesis using Some by simp
qed

lemma proxy_outcome:
  "is_proxy e \<Longrightarrow> exited s1 = None \<Longrightarrow> exited s2 = None \<Longrightarrow>
     fst (step env e s1) = fst (step env e s2)"
  by (cases e) (simp_all add: step_def onError_def onProxyReq_def onProxyRes_def Let_def)

lemma proxy_frame:
  "is_proxy e \<Longrightarrow> lifecycle (snd (step env e s)) = lifecycle s \<and>
     timers (snd (step env e s)) = timers s \<and> exited (snd (step env e s)) = exited s"
  by (cases e) (simp_all add: step_def lifecycle_def onError_def onProxyReq_def onProxyRes_def
      console_log_def Let_def)

lemma stress_console_log: "stress_timers (console_log e s) = stress_timers s"
  by (simp add: stress_timers_def console_log_def)

lemma stress_setTimeout:
  "cb \<noteq> OverloadTick \<Longrightarrow> stress_timers (snd (setTimeout cb ms s)) = stress_timers s"
  by (simp add: stress_timers_def setTimeout_def)

lemma stress_setInterval:
  "cb \<noteq> OverloadTick \<Longrightarrow> stress_timers (snd (setInterval cb ms s)) = stress_timers s"
  by (simp add: stress_timers_def setInterval_def)

lemma stress_exited: "stress_timers (s\<lparr>exited := x\<rparr>) = stress_timers s"
  by (simp add: stress_timers_def)

lemma stress_clear_other:
  assumes "other_handle i s"
  shows "stress_timers (clearInterval i s) = stress_timers s"
proof -
  have "filter (\<lambda>t. callback t = OverloadTick) (filter (\<lambda>t. tid t \<noteq> i) (timers s))
        = filter (\<lambda>t. callback t = OverloadTick) (timers s)"
    unfolding filter_filter
    by (rule filter_cong [OF refl]) (use assms in \<open>auto simp: other_handle_def\<close>)
  then show ?thesis by (simp add: stress_timers_def timers_clearInterval)
qed

lemma filter_stress_map:
  "\<forall>u \<in> set ts. callback u = OverloadTick \<longrightarrow> tid u \<noteq> i \<Longrightarrow>
     filter (\<lambda>t. callback t = OverloadTick)
       (map (\<lambda>t. if tid t = i then t\<lparr>callback := CrashTick c\<rparr> else t) ts)
     = filter (\<lambda>t. callback t = OverloadTick) ts"
  by (induction ts) auto

lemma stress_set_countdown:
  "other_handle i s \<Longrightarrow> stress_timers (set_countdown i c s) = stress_timers s"
  by (simp add: stress_timers_def set_countdown_def other_handle_def filter_stress_map)

lemma stress_crash_tick:
  assumes "other_handle i s"
  shows "stress_timers (crash_tick i c s) = stress_timers s"
proof -
  let ?s2 = "console_log (LogCrashCountdown (c - 1)) (set_countdown i (c - 1) s)"
  have s2: "stress_timers ?s2 = stress_timers s"
    using assms by (simp add: stress_console_log stress_set_countdown)
  have o2: "other_handle i ?s2"
    using assms by (simp add: other_handle_console_log other_handle_set_countdown)
  have "stress_timers (console_log LogForcingExit (clearInterval i ?s2)) = stress_timers s"
    using o2 s2 by (simp add: stress_console_log stress_clear_other)
  then show ?thesis
    using s2 by (simp add: crash_tick_def Let_def stress_setTimeout)
qed

lemma stress_fire:
  assumes "wf s"
  shows "stress_timers (fire i s) = stress_timers s"
proof (cases "find (\<lambda>t. tid t = i) (timers s)")
  case None
  then show ?thesis by (simp add: fire_def)
next
  case (Some t)
  show ?thesis
  proof (cases "callback t = OverloadTick")
    case True
    from find_tid [OF Some] have "t \<in> set (timers s)" by simp
    from wf_stress [OF assms this True] have "repeats t" by simp
    then show ?thesis
      using Some True
      by (simp add: fire_def run_callback_def overload_tick_def stress_console_log
          stress_setTimeout)
  next
    case False
    have oh: "other_handle i s" by (rule other_handle_found [OF assms Some False])
    define s0 where "s0 = (if repeats t then s else clearInterval i s)"
    have t0: "stress_timers s0 = stress_timers s"
      using oh by (simp add: s0_def stress_clear_other)
    have o0: "other_handle i s0" using oh by (simp add: s0_def other_handle_clearInterval)
    have "stress_timers (run_callback i (callback t) s0) = stress_timers s0"
      using False o0
      by (cases "callback t") (simp_all add: run_callback_def stress_crash_tick stress_exited)
    then show ?thesis using Some t0 by (simp add: fire_def s0_def)
  qed
qed

lemma stress_crash: "stress_timers (snd (post_admin_crash ts res s)) = stress_timers s"
  by (simp add: post_admin_crash_def Let_def stress_console_log stress_setInterval
      split: sum.splits)

lemma crash_path_step:
  assumes "wf s" and "crash_path e"
  shows "lifecycle (snd (step env e s)) = lifecycle s \<and>
         stress_timers (snd (step env e s)) = stress_timers s"
proof (cases "exited s = None")
  case False
  then show ?thesis by (simp add: step_def)
next
  case True
  have l: "lifecycle (snd (step env e s)) = lifecycle s"
    using assms(2) lifecycle_step [of env e s] by (cases e) simp_all
  have "stress_timers (snd (step env e s)) = stress_timers s"
    using assms True by (cases e) (simp_all add: step_def stress_fire stress_crash)
  then show ?thesis using l by simp
qed

lemma crash_path_run:
  "wf s \<Longrightarrow> list_all crash_path es \<Longrightarrow>
     lifecycle (run env es s) = lifecycle s \<and> stress_timers (run env es s) = stress_timers s"
proof (induction es arbitrary: s)
  case Nil
  then show ?case by simp
next
  case (Cons e es)
  let ?s' = "snd (step env e s)"
  have w: "wf ?s'" using Cons.prems(1) by (rule wf_step)
  have "lifecycle (run env es ?s') = lifecycle ?s' \<and>
        stress_timers (run env es ?s') = stress_timers ?s'"
    using Cons.IH [OF w] Cons.prems(2) by simp
  then show ?case
    using crash_path_step [OF Cons.prems(1), of e env] Cons.prems(2) by simp
qed

lemma find_fresh:
  "\<forall>t \<in> set xs. tid t \<noteq> n \<Longrightarrow> tid x = n \<Longrightarrow> find (\<lambda>t. tid t = n) (xs @ [x]) = Some x"
  by (induction xs) auto

lemma map_fresh:
  "\<forall>t \<in> set xs. tid t \<noteq> n \<Longrightarrow>
     map (\<lambda>t. if tid t = n then t\<lparr>callback := cb\<rparr> else t) xs = xs"
  by (induction xs) auto

lemma filter_fresh: "\<forall>t \<in> set xs. tid t \<noteq> n \<Longrightarrow> filter (\<lambda>t. tid t \<noteq> n) xs = xs"
  by (induction xs) auto

text \<open>One firing of a countdown timer that is the last registered one.\<close>

lemma fire_crash_tick:
  assumes "timers u = xs @ [\<lparr>tid = n, delay = d, repeats = True, callback = CrashTick c\<rparr>]"
    and "\<forall>t \<in> set xs. tid t \<noteq> n"
  shows "fire n u =
     (if c - 1 \<le> 0 then
        u\<lparr>timers := xs @ [\<lparr>tid = nextId u, delay = 100, repeats = False, callback = ForceExit\<rparr>,
                          \<lparr>tid = Suc (nextId u), delay = 200, repeats = False,
                             callback = ForceThrow\<rparr>,
                          \<lparr>tid = Suc (Suc (nextId u)), delay = 300, repeats = False,
                             callback = ForceKill\<rparr>],
          console := console u @ [LogCrashCountdown (c - 1), LogForcingExit],
          nextId := Suc (Suc (Suc (nextId u)))\<rparr>
      else
        u\<lparr>timers := xs @ [\<lparr>tid = n, delay = d, repeats = True, callback = CrashTick (c - 1)\<rparr>],
          console := console u @ [LogCrashCountdown (c - 1)]\<rparr>)"
proof -
  have f: "find (\<lambda>t. tid t = n)
             (xs @ [\<lparr>tid = n, delay = d, repeats = True, callback = CrashTick c\<rparr>]) =
             Some \<lparr>tid = n, delay = d, repeats = True, callback = CrashTick c\<rparr>"
    by (rule find_fresh [OF assms(2)]) simp
  show ?thesis
    using assms(2)
    by (simp add: fire_def f run_callback_def crash_tick_def set_countdown_def clearInterval_def
        console_log_def setTimeout_def Let_def assms(1) map_fresh filter_fresh)
qed

lemma find_skip:
  "\<forall>t \<in> set xs. tid t \<noteq> j \<Longrightarrow> find (\<lambda>t. tid t = j) (xs @ ys) = find (\<lambda>t. tid t = j) ys"
  by (induction xs) auto

lemma keep_set_countdown:
  "t \<in> set (timers s) \<Longrightarrow> tid t \<noteq> j \<Longrightarrow> t \<in> set (timers (set_countdown j c s))"
  by (force simp: set_countdown_def)

lemma keep_clearInterval:
  "t \<in> set (timers s) \<Longrightarrow> tid t \<noteq> j \<Longrightarrow> t \<in> set (timers (clearInterval j s))"
  by (simp add: clearInterval_def)

lemma keep_console_log: "timers (console_log e s) = timers s"
  by (simp add: console_log_def)

lemma keep_setTimeout:
  "t \<in> set (timers s) \<Longrightarrow> t \<in> set (timers (snd (setTimeout cb ms s)))"
  by (simp add: setTimeout_def)

lemma keep_setInterval:
  "t \<in> set (timers s) \<Longrightarrow> t \<in> set (timers (snd (setInterval cb ms s)))"
  by (simp add: setInterval_def)

lemma keep_crash_tick:
  assumes "t \<in> set (timers s)" and "tid t \<noteq> j"
  shows "t \<in> set (timers (crash_tick j c s))"
proof -
  let ?s2 = "console_log (LogCrashCountdown (c - 1)) (set_countdown j (c - 1) s)"
  have k2: "t \<in> set (timers ?s2)"
    using assms by (simp add: keep_console_log keep_set_countdown)
  have "t \<in> set (timers (clearInterval j ?s2))"
    using k2 assms(2) by (rule keep_clearInterval)
  then have "t \<in> set (timers (console_log LogForcingExit (clearInterval j ?s2)))"
    by (simp only: keep_console_log)
  then have "t \<in> set (timers (snd (setTimeout ForceKill 300 (snd (setTimeout ForceThrow 200
               (snd (setTimeout ForceExit 100 (console_log LogForcingExit (clearInterval j ?s2))))))))) "
    by (intro keep_setTimeout)
  then show ?thesis using k2 by (simp add: crash_tick_def Let_def)
qed

lemma keep_fire:
  assumes "t \<in> set (timers s)" and "tid t \<noteq> j"
  shows "t \<in> set (timers (fire j s))"
proof (cases "find (\<lambda>t. tid t = j) (timers s)")
  case None
  then show ?thesis using assms(1) by (simp add: fire_def)
next
  case (Some u)
  define s0 where "s0 = (if repeats u then s else clearInterval j s)"
  have k0: "t \<in> set (timers s0)" using assms by (simp add: s0_def keep_clearInterval)
  have "t \<in> set (timers (run_callback j (callback u) s0))"
    using k0 assms(2)
    by (cases "callback u")
      (simp_all add: run_callback_def overload_tick_def keep_console_log keep_setTimeout
        keep_crash_tick)
  then show ?thesis using Some by (simp add: fire_def s0_def)
qed

lemma keep_stop_overload:
  assumes "wf s" and "t \<in> set (timers s)" and "callback t \<noteq> OverloadTick"
  shows "t \<in> set (timers (snd (post_admin_stop_overload ts res s)))"
proof (cases "overloadInterval s")
  case None
  then show ?thesis using assms(2) by (simp add: post_admin_stop_overload_def)
next
  case (Some i)
  from wf_handle [OF assms(1) Some] obtain u where
    u: "u \<in> set (timers s)" "tid u = i" "callback u = OverloadTick" by blast
  have "tid t \<noteq> i" using stress_tid_neq [OF assms(1,2,3) u(1,3)] u(2) by simp
  then show ?thesis
    using Some assms(2)
    by (simp add: post_admin_stop_overload_def Let_def keep_console_log clearInterval_def)
qed

lemma keep_step:
  assumes "wf s" and "t \<in> set (timers s)" and "callback t \<noteq> OverloadTick"
    and "e \<noteq> Fire (tid t)"
  shows "t \<in> set (timers (snd (step env e s)))"
proof (cases "exited s = None")
  case False
  then show ?thesis using assms(2) by (simp add: step_def)
next
  case True
  show ?thesis
  proof (cases e)
    case (Fire j)
    then show ?thesis using True assms(2,4) by (simp add: step_def keep_fire)
  next
    case (PostStopOverload ts)
    then show ?thesis using True assms(1,2,3) by (simp add: step_def keep_stop_overload)
  next
    case (PostCrash ts)
    then show ?thesis using True assms(2)
      by (simp add: step_def post_admin_crash_def Let_def keep_console_log keep_setInterval
          split: sum.splits)
  next
    case (PostStartOverload ts)
    then show ?thesis using True assms(2)
      by (simp add: step_def post_admin_start_overload_def Let_def console_log_def
          setInterval_def split: sum.splits)
  qed (use True assms(2) in \<open>simp_all add: step_def handler_defs console_log_def Let_def\<close>)
qed




text \<open>
  What \<^verbatim>\<open>onError\<close> does to a response object: nothing when its headers are sent, the
  500 with its four fields otherwise.
\<close>

lemma onError_response:
  "fst (onError env err req res s) =
     (if headersSent res then Inr res
      else Inr \<lparr>statusCode = 500, headersSent = True,
             body = Some (JObject [(''error'', JString ''Backend service unavailable''),
                                   (''message'', JString ''Cannot connect to backend server''),
                                   (''target'', JString (BACKEND_URL env)),
                                   (''path'', JString (req_path req))])\<rparr>)"
  by (simp add: onError_def prim_defs Let_def)

subsection \<open>The claims\<close>

text \<open>
  C1. For every state, \<^verbatim>\<open>GET /health\<close> checks in this order: not healthy gives HTTP 503
  with status \<^verbatim>\<open>unhealthy\<close>; otherwise overloaded gives HTTP 200 with status \<^verbatim>\<open>degraded\<close>;
  otherwise HTTP 200 with status \<^verbatim>\<open>healthy\<close>. A healthy and overloaded server answers
  200 \<^verbatim>\<open>degraded\<close>, not 503. The handler leaves the process as it was.
\<close>

theorem health_mapping:
  "get_health ts fresh_res s =
     (if \<not> serverHealthy s then
        Inr \<lparr>statusCode = 503, headersSent = True,
             body = Some (JObject [(''status'', JString ''unhealthy''),
                                   (''timestamp'', JString ts),
                                   (''service'', JString ''frontend'')])\<rparr>
      else if serverOverloaded s then
        Inr \<lparr>statusCode = 200, headersSent = True,
             body = Some (JObject [(''status'', JString ''degraded''),
                                   (''timestamp'', JString ts),
                                   (''service'', JString ''frontend''),
                                   (''overloaded'', JBool True)])\<rparr>
      else
        Inr \<lparr>statusCode = 200, headersSent = True,
             body = Some (JObject [(''status'', JString ''healthy''),
                                   (''timestamp'', JString ts),
                                   (''service'', JString ''frontend''),
                                   (''overloaded'', JBool False)])\<rparr>, s)"
  by (simp add: get_health_def prim_defs)

text \<open>
  C2. The invariant \<open>overloaded = (handle \<noteq> null)\<close> holds initially and is preserved by
  every event: the six routes, every timer callback, the proxy hooks and the signal
  handlers; hence it holds after every event sequence from the initial state.
\<close>

theorem lifecycle_invariant:
  "lifecycle_inv init \<and>
   (\<forall>env e s. lifecycle_inv s \<longrightarrow> lifecycle_inv (snd (step env e s))) \<and>
   (\<forall>env es. lifecycle_inv (run env es init))"
proof -
  have i: "lifecycle_inv init" by (simp add: lifecycle_inv_def init_def)
  show ?thesis using i step_lifecycle_inv run_lifecycle_inv [OF i] by blast
qed

theorem lifecycle_invariant_witness:
  "lifecycle_inv init \<and>
   lifecycle_inv (snd (step Map.empty (PostStartOverload ''t0'') init)) \<and>
   serverOverloaded (snd (step Map.empty (PostStartOverload ''t0'') init)) \<and>
   lifecycle_inv (run Map.empty [PostStartOverload ''t0'', Fire 0, PostStopOverload ''t1''] init)"
proof -
  have i: "lifecycle_inv init"
    using lifecycle_invariant by blast
  have st: "lifecycle_inv (snd (step Map.empty (PostStartOverload ''t0'') init))"
    using lifecycle_invariant i by blast
  have rn: "lifecycle_inv (run Map.empty [PostStartOverload ''t0'', Fire 0,
              PostStopOverload ''t1''] init)"
    using lifecycle_invariant by blast
  have ov: "serverOverloaded (snd (step Map.empty (PostStartOverload ''t0'') init))"
    by (simp add: step_def post_admin_start_overload_def prim_defs init_def Let_def)
  show ?thesis using i st rn ov by (intro conjI)
qed

text \<open>
  C3. From the initial state (healthy), after any event sequence that leaves the process
  running, \<^verbatim>\<open>GET /health\<close> reports \<^verbatim>\<open>unhealthy\<close> exactly when the number of toggle-health
  calls in the sequence is odd. A toggle-health call flips \<^verbatim>\<open>serverHealthy\<close>, logs, and
  returns the new value in the field \<^verbatim>\<open>healthy\<close>.
\<close>

theorem toggle_parity:
  "(exited (run env es init) = None \<longrightarrow>
      (\<exists>r. step env (GetHealth ts) (run env es init) = (Http (Inr r), run env es init) \<and>
           (field ''status'' r = Some (JString ''unhealthy'')) = odd (toggles es))) \<and>
   (\<exists>r. post_admin_toggle_health ts fresh_res s =
           (Inr r, (s\<lparr>serverHealthy := \<not> serverHealthy s\<rparr>)
                     \<lparr>console := console s @ [LogHealthToggled (\<not> serverHealthy s)]\<rparr>) \<and>
        field ''healthy'' r = Some (JBool (\<not> serverHealthy s)))"
proof (intro conjI impI)
  assume alive: "exited (run env es init) = None"
  have h: "serverHealthy (run env es init) = even (toggles es)"
    using run_healthy [OF alive] by (simp add: init_def)
  show "\<exists>r. step env (GetHealth ts) (run env es init) = (Http (Inr r), run env es init) \<and>
           (field ''status'' r = Some (JString ''unhealthy'')) = odd (toggles es)"
    using alive h by (simp add: step_def get_health_def prim_defs field_def)
next
  show "\<exists>r. post_admin_toggle_health ts fresh_res s =
           (Inr r, (s\<lparr>serverHealthy := \<not> serverHealthy s\<rparr>)
                     \<lparr>console := console s @ [LogHealthToggled (\<not> serverHealthy s)]\<rparr>) \<and>
        field ''healthy'' r = Some (JBool (\<not> serverHealthy s))"
    by (simp add: post_admin_toggle_health_def prim_defs field_def Let_def)
qed

theorem toggle_parity_witness:
  "exited (run Map.empty [PostToggleHealth ''a'', GetHealth ''b'', PostToggleHealth ''c'',
                          PostToggleHealth ''d''] init) = None \<and>
   (\<exists>r. step Map.empty (GetHealth ''e'')
          (run Map.empty [PostToggleHealth ''a'', GetHealth ''b'', PostToggleHealth ''c'',
                          PostToggleHealth ''d''] init)
        = (Http (Inr r), run Map.empty [PostToggleHealth ''a'', GetHealth ''b'',
                          PostToggleHealth ''c'', PostToggleHealth ''d''] init) \<and>
        field ''status'' r = Some (JString ''unhealthy''))"
proof -
  let ?es = "[PostToggleHealth ''a'', GetHealth ''b'', PostToggleHealth ''c'',
              PostToggleHealth ''d'']"
  have a: "exited (run Map.empty ?es init) = None"
    by (simp add: step_def handler_defs prim_defs init_def Let_def)
  have o: "odd (toggles ?es)" by (simp add: toggles_def)
  from toggle_parity [of Map.empty ?es "''e''" init] a o
  show ?thesis by blast
qed

text \<open>
  C4, as the code has it. With a stress cycle active, \<^verbatim>\<open>start-overload\<close> changes nothing
  and answers 200 with \<^verbatim>\<open>{message: 'Overload already running', overloaded: true}\<close>; the
  message tells the caller that the cycle was running, and the body has no other field.
  Called twice in a row in any state the running process can reach from its initial
  state, it answers \<^verbatim>\<open>overloaded: true\<close> both times, the second call changes nothing, and
  exactly one stress timer is registered.
\<close>

theorem start_overload_idempotent:
  "(overloadInterval s \<noteq> None \<longrightarrow>
      post_admin_start_overload ts fresh_res s =
        (Inr \<lparr>statusCode = 200, headersSent = True,
              body = Some (JObject [(''message'', JString ''Overload already running''),
                                    (''overloaded'', JBool True)])\<rparr>, s)) \<and>
   (s = run env es init \<and> exited s = None \<longrightarrow>
      (\<exists>r1 r2 s1.
          step env (PostStartOverload t1) s = (Http (Inr r1), s1) \<and>
          step env (PostStartOverload t2) s1 = (Http (Inr r2), s1) \<and>
          field ''overloaded'' r1 = Some (JBool True) \<and>
          field ''overloaded'' r2 = Some (JBool True) \<and>
          length (stress_timers s1) = 1))"
proof (intro conjI impI)
  assume "overloadInterval s \<noteq> None"
  then show "post_admin_start_overload ts fresh_res s =
        (Inr \<lparr>statusCode = 200, headersSent = True,
              body = Some (JObject [(''message'', JString ''Overload already running''),
                                    (''overloaded'', JBool True)])\<rparr>, s)"
    by (simp add: post_admin_start_overload_def prim_defs)
next
  assume r: "s = run env es init \<and> exited s = None"
  then have a: "wf s \<and> exited s = None" using reachable_wf [of env es] by auto
  define s1 where "s1 = snd (post_admin_start_overload t1 fresh_res s)"
  have w1: "wf s1" using a by (simp add: s1_def wf_start_overload)
  have h1: "overloadInterval s1 \<noteq> None" and e1: "exited s1 = None"
    using a by (auto simp: s1_def post_admin_start_overload_def prim_defs Let_def)
  have c1: "length (stress_timers s1) = 1"
    using stress_count [OF w1] h1 by simp
  have "\<exists>r. fst (post_admin_start_overload t1 fresh_res s) = Inr r \<and>
          field ''overloaded'' r = Some (JBool True)"
    by (simp add: post_admin_start_overload_def prim_defs Let_def field_def)
  then obtain r1 where r1: "post_admin_start_overload t1 fresh_res s = (Inr r1, s1)"
     "field ''overloaded'' r1 = Some (JBool True)"
    unfolding s1_def by (metis prod.collapse)
  have "\<exists>r. fst (post_admin_start_overload t2 fresh_res s1) = Inr r \<and>
          field ''overloaded'' r = Some (JBool True)"
    by (simp add: post_admin_start_overload_def prim_defs Let_def field_def)
  moreover have "snd (post_admin_start_overload t2 fresh_res s1) = s1"
    using h1 by (simp add: post_admin_start_overload_def)
  ultimately obtain r2 where r2: "post_admin_start_overload t2 fresh_res s1 = (Inr r2, s1)"
     "field ''overloaded'' r2 = Some (JBool True)"
    by (metis prod.collapse)
  have "step env (PostStartOverload t1) s = (Http (Inr r1), s1)"
    using a r1(1) by (simp add: step_def)
  moreover have "step env (PostStartOverload t2) s1 = (Http (Inr r2), s1)"
    using e1 r2(1) by (simp add: step_def)
  ultimately show "\<exists>r1 r2 s1.
          step env (PostStartOverload t1) s = (Http (Inr r1), s1) \<and>
          step env (PostStartOverload t2) s1 = (Http (Inr r2), s1) \<and>
          field ''overloaded'' r1 = Some (JBool True) \<and>
          field ''overloaded'' r2 = Some (JBool True) \<and>
          length (stress_timers s1) = 1"
    using r1(2) r2(2) c1 by blast
qed

theorem start_overload_idempotent_witness:
  "overloadInterval
     \<lparr>serverHealthy = True, serverOverloaded = True, overloadInterval = Some 0,
        timers = [\<lparr>tid = 0, delay = 100, repeats = True, callback = OverloadTick\<rparr>],
        nextId = 1, console = [LogOverloadStarting], exited = None\<rparr> \<noteq> None \<and>
   \<lparr>serverHealthy = True, serverOverloaded = True, overloadInterval = Some 0,
        timers = [\<lparr>tid = 0, delay = 100, repeats = True, callback = OverloadTick\<rparr>],
        nextId = 1, console = [LogOverloadStarting], exited = None\<rparr> =
     run Map.empty [PostStartOverload ''t0''] init \<and>
   post_admin_start_overload ''t1'' fresh_res
     \<lparr>serverHealthy = True, serverOverloaded = True, overloadInterval = Some 0,
        timers = [\<lparr>tid = 0, delay = 100, repeats = True, callback = OverloadTick\<rparr>],
        nextId = 1, console = [LogOverloadStarting], exited = None\<rparr> =
     (Inr \<lparr>statusCode = 200, headersSent = True,
        body = Some (JObject [(''message'', JString ''Overload already running''),
                              (''overloaded'', JBool True)])\<rparr>,
      \<lparr>serverHealthy = True, serverOverloaded = True, overloadInterval = Some 0,
        timers = [\<lparr>tid = 0, delay = 100, repeats = True, callback = OverloadTick\<rparr>],
        nextId = 1, console = [LogOverloadStarting], exited = None\<rparr>) \<and>
   (\<exists>r1 r2 s1.
      step Map.empty (PostStartOverload ''t1'')
        \<lparr>serverHealthy = True, serverOverloaded = True, overloadInterval = Some 0,
        timers = [\<lparr>tid = 0, delay = 100, repeats = True, callback = OverloadTick\<rparr>],
        nextId = 1, console = [LogOverloadStarting], exited = None\<rparr> = (Http (Inr r1), s1) \<and>
      step Map.empty (PostStartOverload ''t2'') s1 = (Http (Inr r2), s1) \<and>
      field ''overloaded'' r1 = Some (JBool True) \<and>
      field ''overloaded'' r2 = Some (JBool True) \<and>
      length (stress_timers s1) = 1)"
proof -
  let ?S = "\<lparr>serverHealthy = True, serverOverloaded = True, overloadInterval = Some 0,
        timers = [\<lparr>tid = 0, delay = 100, repeats = True, callback = OverloadTick\<rparr>],
        nextId = 1, console = [LogOverloadStarting], exited = None\<rparr>"
  have a: "overloadInterval ?S \<noteq> None" by simp
  have w: "?S = run Map.empty [PostStartOverload ''t0''] init"
    by (simp add: step_def post_admin_start_overload_def prim_defs init_def Let_def)
  have e: "exited ?S = None" by simp
  from start_overload_idempotent [of ?S "''t1''" Map.empty "[PostStartOverload ''t0'']"
      "''t1''" "''t2''"] a w e
  show ?thesis by blast
qed

text \<open>
  C4, as the claim words it, asks for a field \<^verbatim>\<open>alreadyRunning: true\<close> in the answer to a
  \<^verbatim>\<open>start-overload\<close> on an active cycle. On the state that one \<^verbatim>\<open>start-overload\<close> leaves
  behind, the answer has no such field.
\<close>

theorem start_overload_alreadyRunning_counterexample:
  "overloadInterval
     \<lparr>serverHealthy = True, serverOverloaded = True, overloadInterval = Some 0,
        timers = [\<lparr>tid = 0, delay = 100, repeats = True, callback = OverloadTick\<rparr>],
        nextId = 1, console = [LogOverloadStarting], exited = None\<rparr> = Some 0 \<and>
   fst (post_admin_start_overload ''t1'' fresh_res
     \<lparr>serverHealthy = True, serverOverloaded = True, overloadInterval = Some 0,
        timers = [\<lparr>tid = 0, delay = 100, repeats = True, callback = OverloadTick\<rparr>],
        nextId = 1, console = [LogOverloadStarting], exited = None\<rparr>) =
     Inr \<lparr>statusCode = 200, headersSent = True,
        body = Some (JObject [(''message'', JString ''Overload already running''),
                              (''overloaded'', JBool True)])\<rparr> \<and>
   field ''alreadyRunning''
     \<lparr>statusCode = 200, headersSent = True,
        body = Some (JObject [(''message'', JString ''Overload already running''),
                              (''overloaded'', JBool True)])\<rparr> = None"
  by (simp add: post_admin_start_overload_def prim_defs field_def)

text \<open>
  C5. \<^verbatim>\<open>stop-overload\<close> with no active stress cycle throws nothing, leaves the whole
  process state as it was, and answers 200 with \<^verbatim>\<open>overloaded: false\<close>.
\<close>

theorem stop_overload_noop:
  "overloadInterval s = None \<Longrightarrow>
     post_admin_stop_overload ts fresh_res s =
       (Inr \<lparr>statusCode = 200, headersSent = True,
             body = Some (JObject [(''message'', JString ''No overload running''),
                                   (''overloaded'', JBool False)])\<rparr>, s) \<and>
     (exited s = None \<longrightarrow>
        step env (PostStopOverload ts) s =
          (Http (Inr \<lparr>statusCode = 200, headersSent = True,
                 body = Some (JObject [(''message'', JString ''No overload running''),
                                       (''overloaded'', JBool False)])\<rparr>), s))"
  by (simp add: step_def post_admin_stop_overload_def prim_defs)

theorem stop_overload_noop_witness:
  "overloadInterval init = None \<and> exited init = None \<and>
   step Map.empty (PostStopOverload ''t0'') init =
     (Http (Inr \<lparr>statusCode = 200, headersSent = True,
            body = Some (JObject [(''message'', JString ''No overload running''),
                                  (''overloaded'', JBool False)])\<rparr>), init)"
proof -
  have a: "overloadInterval init = None" and e: "exited init = None"
    by (simp_all add: init_def)
  from stop_overload_noop [OF a, of "''t0''" Map.empty] a e show ?thesis by blast
qed

text \<open>
  C6. The claim asks that a forwarded request whose backend fails, by a refused
  connection, a timeout or any other transport error, is answered with 500 and
  \<^verbatim>\<open>{error, message, target, path}\<close> as long as nothing has been sent. A refused connection
  is answered so: \<^verbatim>\<open>onError\<close> runs on the untouched response object. A backend that never
  answers is not: lines 201-202 set \<^verbatim>\<open>timeout\<close> and \<^verbatim>\<open>proxyTimeout\<close> to the same 30000, the
  socket of the incoming request times out first and is destroyed, \<^verbatim>\<open>onError\<close> is not
  entered, and the client gets no response.
\<close>

theorem proxy_timeout_no_response:
  "forward env NeverAnswers proxyReq req s =
     (Destroyed, fst (onProxyReq env proxyReq req s),
      s\<lparr>console := console s @ [LogProxying (req_method req) (req_path req) (BACKEND_URL env)]\<rparr>) \<and>
   forward env (Refuses err) proxyReq req s =
     (Written (Inr \<lparr>statusCode = 500, headersSent = True,
         body = Some (JObject [(''error'', JString ''Backend service unavailable''),
                               (''message'', JString ''Cannot connect to backend server''),
                               (''target'', JString (BACKEND_URL env)),
                               (''path'', JString (req_path req))])\<rparr>),
      fst (onProxyReq env proxyReq req s),
      s\<lparr>console := console s @
           [LogProxying (req_method req) (req_path req) (BACKEND_URL env),
            LogProxyError (err_message err),
            LogProxyErrorDetails (err_code err) (BACKEND_URL env) (req_path req)]\<rparr>)"
  by (simp add: forward_def timed_out_def api_proxy_options_def onProxyReq_def onError_def
      prim_defs Let_def)



text \<open>
  C8. In any state the running process can reach, \<^verbatim>\<open>POST /admin/crash\<close> answers 200 with
  \<^verbatim>\<open>{message, countdown: 3, timestamp}\<close> and has then done nothing but log and register the
  countdown, an interval of 1000 ms. The first and second tick log 2 and 1 and keep the
  interval; the third logs 0, clears the interval and schedules \<^verbatim>\<open>process.exit(1)\<close> after
  100 ms, the thrown error after 200 ms and \<^verbatim>\<open>SIGKILL\<close> after 300 ms; until one of them
  fires the process is running, and either of the first and the last ends it. No event
  other than its own tick removes a registered countdown or changes its count.
\<close>

theorem crash_countdown:
  "s = run env es init \<and> exited s = None \<longrightarrow>
     step env (PostCrash ts) s =
       (Http (Inr \<lparr>statusCode = 200, headersSent = True,
            body = Some (JObject [(''message'', JString ''Frontend container crash initiated''),
                                  (''countdown'', JNumber 3),
                                  (''timestamp'', JString ts)])\<rparr>),
        s\<lparr>console := console s @ [LogCrashCalled],
          timers := timers s @ [\<lparr>tid = nextId s, delay = 1000, repeats = True, callback = CrashTick 3\<rparr>],
          nextId := Suc (nextId s)\<rparr>) \<and>
     run env [PostCrash ts, Fire (nextId s)] s =
        s\<lparr>console := console s @ [LogCrashCalled, LogCrashCountdown 2],
          timers := timers s @ [\<lparr>tid = nextId s, delay = 1000, repeats = True, callback = CrashTick 2\<rparr>],
          nextId := Suc (nextId s)\<rparr> \<and>
     run env [PostCrash ts, Fire (nextId s), Fire (nextId s)] s =
        s\<lparr>console := console s @ [LogCrashCalled, LogCrashCountdown 2, LogCrashCountdown 1],
          timers := timers s @ [\<lparr>tid = nextId s, delay = 1000, repeats = True, callback = CrashTick 1\<rparr>],
          nextId := Suc (nextId s)\<rparr> \<and>
     run env [PostCrash ts, Fire (nextId s), Fire (nextId s), Fire (nextId s)] s =
        s\<lparr>console := console s @ [LogCrashCalled, LogCrashCountdown 2, LogCrashCountdown 1,
                                   LogCrashCountdown 0, LogForcingExit],
          timers := timers s @ [\<lparr>tid = Suc (nextId s), delay = 100, repeats = False, callback = ForceExit\<rparr>,
                            \<lparr>tid = Suc (Suc (nextId s)), delay = 200, repeats = False,
                               callback = ForceThrow\<rparr>,
                            \<lparr>tid = Suc (Suc (Suc (nextId s))), delay = 300, repeats = False,
                               callback = ForceKill\<rparr>],
          nextId := Suc (Suc (Suc (Suc (nextId s))))\<rparr> \<and>
     exited (run env [PostCrash ts, Fire (nextId s), Fire (nextId s), Fire (nextId s),
                      Fire (Suc (nextId s))] s) = Some (Exited 1) \<and>
     exited (run env [PostCrash ts, Fire (nextId s), Fire (nextId s), Fire (nextId s),
                      Fire (Suc (Suc (Suc (nextId s))))] s) = Some (Killed ''SIGKILL'') \<and>
     (\<forall>t e. t \<in> set (timers s) \<and> (\<exists>c. callback t = CrashTick c) \<and> e \<noteq> Fire (tid t) \<longrightarrow>
        t \<in> set (timers (snd (step env e s))))"
proof (intro impI)
  assume a: "s = run env es init \<and> exited s = None"
  then have w: "wf s" and alive: "exited s = None" using reachable_wf [of env es] by auto
  define n where "n = nextId s"
  have fresh: "\<forall>t \<in> set (timers s). tid t \<noteq> n"
    using wf_tid_less [OF w] unfolding n_def by fastforce
  have fresh1: "\<forall>t \<in> set (timers s). tid t \<noteq> Suc n"
    using wf_tid_less [OF w] unfolding n_def by fastforce
  have fresh3: "\<forall>t \<in> set (timers s). tid t \<noteq> Suc (Suc (Suc n))"
    using wf_tid_less [OF w] unfolding n_def by fastforce
  define s1 where "s1 = s\<lparr>console := console s @ [LogCrashCalled],
      timers := timers s @ [\<lparr>tid = n, delay = 1000, repeats = True, callback = CrashTick 3\<rparr>],
      nextId := Suc n\<rparr>"
  define s2 where "s2 = s\<lparr>console := console s @ [LogCrashCalled, LogCrashCountdown 2],
      timers := timers s @ [\<lparr>tid = n, delay = 1000, repeats = True, callback = CrashTick 2\<rparr>],
      nextId := Suc n\<rparr>"
  define s3 where "s3 = s\<lparr>console := console s @ [LogCrashCalled, LogCrashCountdown 2,
                                                  LogCrashCountdown 1],
      timers := timers s @ [\<lparr>tid = n, delay = 1000, repeats = True, callback = CrashTick 1\<rparr>],
      nextId := Suc n\<rparr>"
  define s4 where "s4 = s\<lparr>console := console s @ [LogCrashCalled, LogCrashCountdown 2,
                               LogCrashCountdown 1, LogCrashCountdown 0, LogForcingExit],
      timers := timers s @ [\<lparr>tid = Suc n, delay = 100, repeats = False, callback = ForceExit\<rparr>,
                            \<lparr>tid = Suc (Suc n), delay = 200, repeats = False,
                               callback = ForceThrow\<rparr>,
                            \<lparr>tid = Suc (Suc (Suc n)), delay = 300, repeats = False,
                               callback = ForceKill\<rparr>],
      nextId := Suc (Suc (Suc (Suc n)))\<rparr>"
  have c: "step env (PostCrash ts) s = (Http (Inr \<lparr>statusCode = 200, headersSent = True,
            body = Some (JObject [(''message'', JString ''Frontend container crash initiated''),
                                  (''countdown'', JNumber 3),
                                  (''timestamp'', JString ts)])\<rparr>), s1)"
    using alive by (simp add: step_def post_admin_crash_def prim_defs Let_def s1_def n_def)
  have f1: "fire n s1 = s2"
    using fire_crash_tick [of s1 "timers s" n 1000 3] fresh by (simp add: s1_def s2_def)
  have f2: "fire n s2 = s3"
    using fire_crash_tick [of s2 "timers s" n 1000 2] fresh by (simp add: s2_def s3_def)
  have f3: "fire n s3 = s4"
    using fire_crash_tick [of s3 "timers s" n 1000 1] fresh by (simp add: s3_def s4_def)
  have al: "exited s1 = None" "exited s2 = None" "exited s3 = None" "exited s4 = None"
    using alive by (simp_all add: s1_def s2_def s3_def s4_def)
  have r1: "run env [PostCrash ts, Fire n] s = s2"
    using c f1 al by (simp add: step_def)
  have r2: "run env [PostCrash ts, Fire n, Fire n] s = s3"
    using c f1 f2 al by (simp add: step_def)
  have r3: "run env [PostCrash ts, Fire n, Fire n, Fire n] s = s4"
    using c f1 f2 f3 al by (simp add: step_def)
  have x1: "exited (fire (Suc n) s4) = Some (Exited 1)"
    using fresh1 by (simp add: fire_def s4_def find_skip run_callback_def clearInterval_def)
  have x3: "exited (fire (Suc (Suc (Suc n))) s4) = Some (Killed ''SIGKILL'')"
    using fresh3 by (simp add: fire_def s4_def find_skip run_callback_def clearInterval_def)
  have r4: "exited (run env [PostCrash ts, Fire n, Fire n, Fire n, Fire (Suc n)] s)
              = Some (Exited 1)"
    using c f1 f2 f3 al x1 by (simp add: step_def)
  have r5: "exited (run env [PostCrash ts, Fire n, Fire n, Fire n, Fire (Suc (Suc (Suc n)))] s)
              = Some (Killed ''SIGKILL'')"
    using c f1 f2 f3 al x3 by (simp add: step_def)
  have k: "\<forall>t e. t \<in> set (timers s) \<and> (\<exists>c. callback t = CrashTick c) \<and> e \<noteq> Fire (tid t) \<longrightarrow>
        t \<in> set (timers (snd (step env e s)))"
    using keep_step [OF w] by fastforce
  show "step env (PostCrash ts) s =
     (Http (Inr \<lparr>statusCode = 200, headersSent = True,
          body = Some (JObject [(''message'', JString ''Frontend container crash initiated''),
                                (''countdown'', JNumber 3),
                                (''timestamp'', JString ts)])\<rparr>),
      s\<lparr>console := console s @ [LogCrashCalled],
        timers := timers s @ [\<lparr>tid = nextId s, delay = 1000, repeats = True, callback = CrashTick 3\<rparr>],
        nextId := Suc (nextId s)\<rparr>) \<and>
   run env [PostCrash ts, Fire (nextId s)] s =
      s\<lparr>console := console s @ [LogCrashCalled, LogCrashCountdown 2],
        timers := timers s @ [\<lparr>tid = nextId s, delay = 1000, repeats = True, callback = CrashTick 2\<rparr>],
        nextId := Suc (nextId s)\<rparr> \<and>
   run env [PostCrash ts, Fire (nextId s), Fire (nextId s)] s =
      s\<lparr>console := console s @ [LogCrashCalled, LogCrashCountdown 2, LogCrashCountdown 1],
        timers := timers s @ [\<lparr>tid = nextId s, delay = 1000, repeats = True, callback = CrashTick 1\<rparr>],
        nextId := Suc (nextId s)\<rparr> \<and>
   run env [PostCrash ts, Fire (nextId s), Fire (nextId s), Fire (nextId s)] s =
      s\<lparr>console := console s @ [LogCrashCalled, LogCrashCountdown 2, LogCrashCountdown 1,
                                 LogCrashCountdown 0, LogForcingExit],
        timers := timers s @ [\<lparr>tid = Suc (nextId s), delay = 100, repeats = False, callback = ForceExit\<rparr>,
                          \<lparr>tid = Suc (Suc (nextId s)), delay = 200, repeats = False,
                             callback = ForceThrow\<rparr>,
                          \<lparr>tid = Suc (Suc (Suc (nextId s))), delay = 300, repeats = False,
                             callback = ForceKill\<rparr>],
        nextId := Suc (Suc (Suc (Suc (nextId s))))\<rparr> \<and>
   exited (run env [PostCrash ts, Fire (nextId s), Fire (nextId s), Fire (nextId s),
                    Fire (Suc (nextId s))] s) = Some (Exited 1) \<and>
   exited (run env [PostCrash ts, Fire (nextId s), Fire (nextId s), Fire (nextId s),
                    Fire (Suc (Suc (Suc (nextId s))))] s) = Some (Killed ''SIGKILL'') \<and>
   (\<forall>t e. t \<in> set (timers s) \<and> (\<exists>c. callback t = CrashTick c) \<and> e \<noteq> Fire (tid t) \<longrightarrow>
      t \<in> set (timers (snd (step env e s))))"
    using c r1 r2 r3 r4 r5 k unfolding s1_def s2_def s3_def s4_def n_def by (intro conjI)
qed

theorem crash_countdown_witness:
  "\<lparr>serverHealthy = True, serverOverloaded = False, overloadInterval = None,
        timers = [\<lparr>tid = 0, delay = 1000, repeats = True, callback = CrashTick 3\<rparr>],
        nextId = 1, console = [LogCrashCalled], exited = None\<rparr> =
     run Map.empty [PostCrash ''t0''] init \<and>
   exited \<lparr>serverHealthy = True, serverOverloaded = False, overloadInterval = None,
        timers = [\<lparr>tid = 0, delay = 1000, repeats = True, callback = CrashTick 3\<rparr>],
        nextId = 1, console = [LogCrashCalled], exited = None\<rparr> = None \<and>
   run Map.empty [PostCrash ''t1'', Fire 1, Fire 1, Fire 1]
     \<lparr>serverHealthy = True, serverOverloaded = False, overloadInterval = None,
        timers = [\<lparr>tid = 0, delay = 1000, repeats = True, callback = CrashTick 3\<rparr>],
        nextId = 1, console = [LogCrashCalled], exited = None\<rparr> =
     \<lparr>serverHealthy = True, serverOverloaded = False, overloadInterval = None,
      timers = [\<lparr>tid = 0, delay = 1000, repeats = True, callback = CrashTick 3\<rparr>,
                \<lparr>tid = 2, delay = 100, repeats = False, callback = ForceExit\<rparr>,
                \<lparr>tid = 3, delay = 200, repeats = False, callback = ForceThrow\<rparr>,
                \<lparr>tid = 4, delay = 300, repeats = False, callback = ForceKill\<rparr>],
      nextId = 5,
      console = [LogCrashCalled, LogCrashCalled, LogCrashCountdown 2, LogCrashCountdown 1,
                 LogCrashCountdown 0, LogForcingExit],
      exited = None\<rparr> \<and>
   exited (run Map.empty [PostCrash ''t1'', Fire 1, Fire 1, Fire 1, Fire 2]
     \<lparr>serverHealthy = True, serverOverloaded = False, overloadInterval = None,
        timers = [\<lparr>tid = 0, delay = 1000, repeats = True, callback = CrashTick 3\<rparr>],
        nextId = 1, console = [LogCrashCalled], exited = None\<rparr>) = Some (Exited 1) \<and>
   \<lparr>tid = 0, delay = 1000, repeats = True, callback = CrashTick 3\<rparr>
     \<in> set (timers (snd (step Map.empty (PostStopOverload ''t2'')
     \<lparr>serverHealthy = True, serverOverloaded = False, overloadInterval = None,
        timers = [\<lparr>tid = 0, delay = 1000, repeats = True, callback = CrashTick 3\<rparr>],
        nextId = 1, console = [LogCrashCalled], exited = None\<rparr>)))"
proof -
  let ?W = "\<lparr>serverHealthy = True, serverOverloaded = False, overloadInterval = None,
        timers = [\<lparr>tid = 0, delay = 1000, repeats = True, callback = CrashTick 3\<rparr>],
        nextId = 1, console = [LogCrashCalled], exited = None\<rparr>"
  let ?T = "\<lparr>tid = 0, delay = 1000, repeats = True, callback = CrashTick 3\<rparr>"
  have w: "?W = run Map.empty [PostCrash ''t0''] init"
    by (simp add: step_def post_admin_crash_def prim_defs init_def Let_def)
  have a: "exited ?W = None" by simp
  have t: "?T \<in> set (timers ?W) \<and> (\<exists>c. callback ?T = CrashTick c) \<and>
           PostStopOverload ''t2'' \<noteq> Fire (tid ?T)" by simp
  note th = crash_countdown [of ?W Map.empty "[PostCrash ''t0'']" "''t1''", rule_format,
      OF conjI [OF w a]]
  have r: "run Map.empty [PostCrash ''t1'', Fire 1, Fire 1, Fire 1] ?W =
     \<lparr>serverHealthy = True, serverOverloaded = False, overloadInterval = None,
      timers = [\<lparr>tid = 0, delay = 1000, repeats = True, callback = CrashTick 3\<rparr>,
                \<lparr>tid = 2, delay = 100, repeats = False, callback = ForceExit\<rparr>,
                \<lparr>tid = 3, delay = 200, repeats = False, callback = ForceThrow\<rparr>,
                \<lparr>tid = 4, delay = 300, repeats = False, callback = ForceKill\<rparr>],
      nextId = 5,
      console = [LogCrashCalled, LogCrashCalled, LogCrashCountdown 2, LogCrashCountdown 1,
                 LogCrashCountdown 0, LogForcingExit],
      exited = None\<rparr>"
    using th [THEN conjunct2, THEN conjunct2, THEN conjunct2, THEN conjunct1]
    by (simp del: run.simps)
  have x: "exited (run Map.empty [PostCrash ''t1'', Fire 1, Fire 1, Fire 1, Fire 2] ?W)
            = Some (Exited 1)"
    using th [THEN conjunct2, THEN conjunct2, THEN conjunct2, THEN conjunct2, THEN conjunct1]
    by (simp add: numeral_2_eq_2 del: run.simps)
  have k: "?T \<in> set (timers (snd (step Map.empty (PostStopOverload ''t2'') ?W)))"
    using th [THEN conjunct2, THEN conjunct2, THEN conjunct2, THEN conjunct2, THEN conjunct2,
        THEN conjunct2, rule_format, OF t] .
  show ?thesis using w a r x k by (intro conjI)
qed

text \<open>
  C9. A hook of the proxy answers the same in any two running processes, whatever their
  \<^verbatim>\<open>serverHealthy\<close>, \<^verbatim>\<open>serverOverloaded\<close> and \<^verbatim>\<open>overloadInterval\<close>, and leaves these three, the
  timers and the exit status untouched.
\<close>

theorem proxy_independent:
  "is_proxy e \<Longrightarrow>
     (exited s1 = None \<and> exited s2 = None \<longrightarrow> fst (step env e s1) = fst (step env e s2)) \<and>
     lifecycle (snd (step env e s1)) = lifecycle s1 \<and>
     timers (snd (step env e s1)) = timers s1 \<and>
     exited (snd (step env e s1)) = exited s1"
  using proxy_outcome [of e s1 s2 env] proxy_frame [of e env s1] by blast

theorem proxy_independent_witness:
  "is_proxy (ProxyError \<lparr>err_message = ''connect ECONNREFUSED'', err_code = Some ''ECONNREFUSED''\<rparr>
              \<lparr>req_method = ''GET'', req_path = ''/api/movies'', req_ip = ''10.0.0.7''\<rparr>
              fresh_res) \<and>
   exited init = None \<and>
   exited \<lparr>serverHealthy = False, serverOverloaded = True, overloadInterval = Some 0,
        timers = [\<lparr>tid = 0, delay = 100, repeats = True, callback = OverloadTick\<rparr>],
        nextId = 1, console = [LogOverloadStarting, LogHealthToggled False], exited = None\<rparr> = None \<and>
   fst (step Map.empty
         (ProxyError \<lparr>err_message = ''connect ECONNREFUSED'', err_code = Some ''ECONNREFUSED''\<rparr>
              \<lparr>req_method = ''GET'', req_path = ''/api/movies'', req_ip = ''10.0.0.7''\<rparr>
              fresh_res) init) =
   fst (step Map.empty
         (ProxyError \<lparr>err_message = ''connect ECONNREFUSED'', err_code = Some ''ECONNREFUSED''\<rparr>
              \<lparr>req_method = ''GET'', req_path = ''/api/movies'', req_ip = ''10.0.0.7''\<rparr>
              fresh_res)
         \<lparr>serverHealthy = False, serverOverloaded = True, overloadInterval = Some 0,
        timers = [\<lparr>tid = 0, delay = 100, repeats = True, callback = OverloadTick\<rparr>],
        nextId = 1, console = [LogOverloadStarting, LogHealthToggled False], exited = None\<rparr>)"
proof -
  let ?e = "ProxyError \<lparr>err_message = ''connect ECONNREFUSED'', err_code = Some ''ECONNREFUSED''\<rparr>
              \<lparr>req_method = ''GET'', req_path = ''/api/movies'', req_ip = ''10.0.0.7''\<rparr>
              fresh_res"
  let ?U = "\<lparr>serverHealthy = False, serverOverloaded = True, overloadInterval = Some 0,
        timers = [\<lparr>tid = 0, delay = 100, repeats = True, callback = OverloadTick\<rparr>],
        nextId = 1, console = [LogOverloadStarting, LogHealthToggled False], exited = None\<rparr>"
  have p: "is_proxy ?e" by simp
  have a: "exited init = None" by (simp add: init_def)
  have b: "exited ?U = None" by simp
  from proxy_independent [OF p, of init ?U Map.empty] a b
  have "fst (step Map.empty ?e init) = fst (step Map.empty ?e ?U)" by blast
  then show ?thesis using p a b by (intro conjI)
qed

text \<open>
  C10. The crash handler leaves \<^verbatim>\<open>serverHealthy\<close>, \<^verbatim>\<open>serverOverloaded\<close> and
  \<^verbatim>\<open>overloadInterval\<close> unchanged and only adds its countdown to the timers; from any
  state the process can reach, through any sequence of crash requests and timer callbacks
  (the countdown, the three ways out, the stress cycle itself) the three variables and
  the registered stress timer stay as they were.
\<close>

theorem crash_frame:
  "lifecycle (snd (post_admin_crash ts fresh_res s)) = lifecycle s \<and>
   timers (snd (post_admin_crash ts fresh_res s)) =
     timers s @ [\<lparr>tid = nextId s, delay = 1000, repeats = True, callback = CrashTick 3\<rparr>] \<and>
   (s = run env es0 init \<and> list_all crash_path es \<longrightarrow>
      lifecycle (run env es s) = lifecycle s \<and>
      stress_timers (run env es s) = stress_timers s)"
proof -
  have "lifecycle (snd (post_admin_crash ts fresh_res s)) = lifecycle s \<and>
   timers (snd (post_admin_crash ts fresh_res s)) =
     timers s @ [\<lparr>tid = nextId s, delay = 1000, repeats = True, callback = CrashTick 3\<rparr>]"
    by (simp add: post_admin_crash_def prim_defs lifecycle_def Let_def)
  moreover have "s = run env es0 init \<Longrightarrow> wf s"
    by (simp add: reachable_wf)
  ultimately show ?thesis using crash_path_run [of s es env] by blast
qed

theorem crash_frame_witness:
  "\<lparr>serverHealthy = True, serverOverloaded = True, overloadInterval = Some 0,
        timers = [\<lparr>tid = 0, delay = 100, repeats = True, callback = OverloadTick\<rparr>],
        nextId = 1, console = [LogOverloadStarting], exited = None\<rparr> =
     run Map.empty [PostStartOverload ''t0''] init \<and>
   list_all crash_path [PostCrash ''t1'', Fire 1, Fire 0, Fire 1, Fire 1, Fire 3] \<and>
   lifecycle (run Map.empty [PostCrash ''t1'', Fire 1, Fire 0, Fire 1, Fire 1, Fire 3]
     \<lparr>serverHealthy = True, serverOverloaded = True, overloadInterval = Some 0,
        timers = [\<lparr>tid = 0, delay = 100, repeats = True, callback = OverloadTick\<rparr>],
        nextId = 1, console = [LogOverloadStarting], exited = None\<rparr>) = (True, True, Some 0) \<and>
   stress_timers (run Map.empty [PostCrash ''t1'', Fire 1, Fire 0, Fire 1, Fire 1, Fire 3]
     \<lparr>serverHealthy = True, serverOverloaded = True, overloadInterval = Some 0,
        timers = [\<lparr>tid = 0, delay = 100, repeats = True, callback = OverloadTick\<rparr>],
        nextId = 1, console = [LogOverloadStarting], exited = None\<rparr>) = [\<lparr>tid = 0, delay = 100, repeats = True, callback = OverloadTick\<rparr>]"
proof -
  let ?S = "\<lparr>serverHealthy = True, serverOverloaded = True, overloadInterval = Some 0,
        timers = [\<lparr>tid = 0, delay = 100, repeats = True, callback = OverloadTick\<rparr>],
        nextId = 1, console = [LogOverloadStarting], exited = None\<rparr>"
  let ?es = "[PostCrash ''t1'', Fire 1, Fire 0, Fire 1, Fire 1, Fire 3]"
  have w: "?S = run Map.empty [PostStartOverload ''t0''] init"
    by (simp add: step_def post_admin_start_overload_def prim_defs init_def Let_def)
  have l: "list_all crash_path ?es" by simp
  from crash_frame [of "''t1''" ?S Map.empty "[PostStartOverload ''t0'']" ?es] w l
  have "lifecycle (run Map.empty ?es ?S) = lifecycle ?S \<and>
        stress_timers (run Map.empty ?es ?S) = stress_timers ?S" by blast
  then have "lifecycle (run Map.empty ?es ?S) = (True, True, Some 0) \<and>
        stress_timers (run Map.empty ?es ?S) =
          [\<lparr>tid = 0, delay = 100, repeats = True, callback = OverloadTick\<rparr>]"
    by (simp add: lifecycle_def stress_timers_def)
  then show ?thesis using w l by (intro conjI) simp_all
qed

end
